theory Spec2Isabelle
  imports Complex_Main "HOL-Library.AList"
begin

section \<open>Process analysis of labml\_app: data model\<close>

text \<open>
  Embedding of \<^verbatim>\<open>labml_app/analyses/computers/process.py\<close>.

  Python values that the module stores without inspecting their type (the first sample of
  a series payload, the defaults \<^verbatim>\<open>0\<close> and \<^verbatim>\<open>''\<close> of \<^verbatim>\<open>dict.get\<close>) are
  values of \<open>pyval\<close>; \<open>truthy\<close> is Python's truth test, used by \<^verbatim>\<open>if dead:\<close>.
  Floats are modelled as reals (no NaN, no rounding): the module only compares them.
\<close>

datatype pyval = VNone | VBool bool | VInt int | VFloat real | VStr string

fun truthy :: "pyval \<Rightarrow> bool" where
  "truthy VNone = False"
| "truthy (VBool b) = b"
| "truthy (VInt n) = (n \<noteq> 0)"
| "truthy (VFloat x) = (x \<noteq> 0)"
| "truthy (VStr s) = (s \<noteq> [])"

datatype py_error = IndexError | KeyError string

text \<open>\<^verbatim>\<open>ALMOST_ZERO = 1.0E-2\<close>\<close>

definition ALMOST_ZERO :: real where
  "ALMOST_ZERO = 1 / 100"

text \<open>\<^verbatim>\<open>SERIES_NAMES = ['rss', 'vms', 'cpu', 'threads', 'user', 'system']\<close>\<close>

definition SERIES_NAMES :: "string list" where
  "SERIES_NAMES = [''rss'', ''vms'', ''cpu'', ''threads'', ''user'', ''system'']"

subsection \<open>String operations\<close>

text \<open>\<^verbatim>\<open>ind.split('.')\<close>: the result is never empty, and empty segments are kept.\<close>

fun split_dot :: "string \<Rightarrow> string list" where
  "split_dot [] = [[]]"
| "split_dot (c # cs) =
     (if c = CHR ''.'' then [] # split_dot cs
      else (case split_dot cs of [] \<Rightarrow> [[c]] | w # ws \<Rightarrow> (c # w) # ws))"

text \<open>\<^verbatim>\<open>'.'.join(xs)\<close>\<close>

fun join_dot :: "string list \<Rightarrow> string" where
  "join_dot [] = []"
| "join_dot [x] = x"
| "join_dot (x # y # ys) = x @ ''.'' @ join_dot (y # ys)"

text \<open>\<^verbatim>\<open>sub in s\<close> on strings: \<open>sub\<close> occurs in \<open>s\<close> as a contiguous substring.\<close>

fun str_contains :: "string \<Rightarrow> string \<Rightarrow> bool" where
  "str_contains sub [] = (sub = [])"
| "str_contains sub (c # cs) = (take (length sub) (c # cs) = sub \<or> str_contains sub cs)"

text \<open>
  The process id and the metric suffix of a composite key, as both \<^verbatim>\<open>track\<close> and
  \<^verbatim>\<open>get_tracking\<close> compute them: \<^verbatim>\<open>'.'.join(ind_split[:-1])\<close> and \<^verbatim>\<open>ind_split[-1]\<close>.
\<close>

definition key_process_id :: "string \<Rightarrow> string" where
  "key_process_id ind = join_dot (butlast (split_dot ind))"

definition key_suffix :: "string \<Rightarrow> string" where
  "key_suffix ind = last (split_dot ind)"

subsection \<open>Dictionaries\<close>

text \<open>
  A dict that is only looked up by key is a map; a dict that is iterated
  (\<^verbatim>\<open>.items()\<close>) is an association list in insertion order.
  \<open>dict_get\<close> is \<^verbatim>\<open>d.get(k, default)\<close>; \<open>dict_set\<close> is \<^verbatim>\<open>d[k] = v\<close> on an
  insertion-ordered dict (an existing key keeps its position).
\<close>

definition dict_get :: "('k \<rightharpoonup> 'v) \<Rightarrow> 'k \<Rightarrow> 'v \<Rightarrow> 'v" where
  "dict_get d k dflt = (case d k of None \<Rightarrow> dflt | Some v \<Rightarrow> v)"

definition dict_set :: "('k \<times> 'v) list \<Rightarrow> 'k \<Rightarrow> 'v \<Rightarrow> ('k \<times> 'v) list" where
  "dict_set d k v = AList.update k v d"

subsection \<open>The persisted model\<close>

text \<open>
  The detail object of a loaded series (\<^verbatim>\<open>Series().load(track).detail\<close>): of its keys
  the module reads \<^verbatim>\<open>smoothed\<close> and writes \<^verbatim>\<open>name\<close>. Every detail object is created by
  one \<^verbatim>\<open>.detail\<close> call and is referenced by one record only, so it is a value inside
  that record.
\<close>

record detail =
  smoothed :: "real list"
  dname :: "pyval option"

text \<open>What \<^verbatim>\<open>Series().load(track)\<close> offers: \<^verbatim>\<open>.summary['mean']\<close> and \<^verbatim>\<open>.detail\<close>.\<close>

record series =
  mean :: real
  sdetail :: detail

text \<open>
  The per-process dict built by \<^verbatim>\<open>get_tracking\<close>; the keys \<^verbatim>\<open>cpu\<close> and \<^verbatim>\<open>rss\<close>
  are absent until a series of that suffix is seen.
\<close>

record proc_rec =
  r_process_id :: string
  r_dead :: pyval
  r_pid :: pyval
  r_name :: pyval
  is_zero_cpu :: bool
  cpu :: "detail option"
  rss :: "detail option"

text \<open>A series payload of an ingestion batch (\<^verbatim>\<open>SeriesModel\<close>); the module reads \<^verbatim>\<open>s['value'][0]\<close>.\<close>

record series_model =
  sm_value :: "pyval list"

text \<open>
  \<^verbatim>\<open>ProcessModel\<close>, with the \<^verbatim>\<open>tracking\<close> dict it inherits from \<^verbatim>\<open>SeriesCollection\<close>.
  The stored form \<open>'tr\<close> of a series belongs to the series store and stays abstract.
\<close>

record 'tr process_model =
  names :: "string \<rightharpoonup> pyval"
  exes :: "string \<rightharpoonup> pyval"
  cmdlines :: "string \<rightharpoonup> pyval"
  create_times :: "string \<rightharpoonup> pyval"
  pids :: "string \<rightharpoonup> pyval"
  ppids :: "string \<rightharpoonup> pyval"
  dead :: "string \<rightharpoonup> pyval"
  gpu_processes :: "string \<rightharpoonup> string set"
  zero_cpu_processes :: "(string \<times> proc_rec) list"
  tracking :: "(string \<times> 'tr) list"

text \<open>\<^verbatim>\<open>ProcessModel.defaults()\<close>, with an empty series store.\<close>

definition defaults :: "'tr process_model" where
  "defaults = \<lparr>names = Map.empty, exes = Map.empty, cmdlines = Map.empty,
     create_times = Map.empty, pids = Map.empty, ppids = Map.empty, dead = Map.empty,
     gpu_processes = Map.empty, zero_cpu_processes = [], tracking = []\<rparr>"

section \<open>Ingestion: \<^verbatim>\<open>ProcessAnalysis.track\<close>\<close>

text \<open>\<^verbatim>\<open>s['value'][0]\<close> raises \<^verbatim>\<open>IndexError\<close> on an empty list.\<close>

definition first_value :: "series_model \<Rightarrow> py_error + pyval" where
  "first_value s = (case sm_value s of [] \<Rightarrow> Inl IndexError | v # _ \<Rightarrow> Inr v)"

text \<open>
  \<^verbatim>\<open>if process_id not in d: d[process_id] = s['value'][0]\<close>, for one attribute map \<open>d\<close>.
\<close>

definition write_once :: "(string \<rightharpoonup> pyval) \<Rightarrow> string \<Rightarrow> series_model \<Rightarrow> py_error + (string \<rightharpoonup> pyval)" where
  "write_once d process_id s =
     (if d process_id = None
      then (case first_value s of Inl e \<Rightarrow> Inl e | Inr v \<Rightarrow> Inr (d(process_id \<mapsto> v)))
      else Inr d)"

text \<open>Lines 108--115: registering a GPU sub-process.\<close>

definition register_gpu :: "string list \<Rightarrow> (string \<rightharpoonup> string set) \<Rightarrow> (string \<rightharpoonup> string set)" where
  "register_gpu ind_split g =
     (let process_id = join_dot (take 2 ind_split);
          gpu_process = join_dot (take 2 (drop 2 ind_split))
      in (case g process_id of
            Some gs \<Rightarrow> g(process_id \<mapsto> insert gpu_process gs)
          | None \<Rightarrow> g(process_id \<mapsto> {gpu_process})))"

text \<open>
  One iteration of the loop of \<^verbatim>\<open>track\<close> (lines 73--117) on the pair of the model and the
  batch \<^verbatim>\<open>res\<close> collected so far. \<open>PROCESS\<close> is \<^verbatim>\<open>COMPUTEREnums.PROCESS\<close>, a constant
  declared outside this module.
\<close>

definition track_item ::
  "string \<Rightarrow> 'tr process_model \<times> (string \<times> series_model) list \<Rightarrow> string \<Rightarrow> series_model
     \<Rightarrow> py_error + ('tr process_model \<times> (string \<times> series_model) list)" where
  "track_item PROCESS st ind s =
     (let m = fst st; res = snd st;
          ind_split = split_dot ind;
          ind_type = hd ind_split
      in if ind_type = PROCESS then
           (let suffix = last ind_split;
                process_id = join_dot (butlast ind_split)
            in if ''name'' = suffix then
                 (case write_once (names m) process_id s of
                    Inl e \<Rightarrow> Inl e | Inr d \<Rightarrow> Inr (m\<lparr>names := d\<rparr>, res))
               else if ''exe'' = suffix then
                 (case write_once (exes m) process_id s of
                    Inl e \<Rightarrow> Inl e | Inr d \<Rightarrow> Inr (m\<lparr>exes := d\<rparr>, res))
               else if ''cmdline'' = suffix then
                 (case write_once (cmdlines m) process_id s of
                    Inl e \<Rightarrow> Inl e | Inr d \<Rightarrow> Inr (m\<lparr>cmdlines := d\<rparr>, res))
               else if ''create_time'' = suffix then
                 (case write_once (create_times m) process_id s of
                    Inl e \<Rightarrow> Inl e | Inr d \<Rightarrow> Inr (m\<lparr>create_times := d\<rparr>, res))
               else if ''pid'' = suffix then
                 (case write_once (pids m) process_id s of
                    Inl e \<Rightarrow> Inl e | Inr d \<Rightarrow> Inr (m\<lparr>pids := d\<rparr>, res))
               else if ''ppids'' = suffix then
                 (case write_once (ppids m) process_id s of
                    Inl e \<Rightarrow> Inl e | Inr d \<Rightarrow> Inr (m\<lparr>ppids := d\<rparr>, res))
               else if ''dead'' = suffix then
                 (case write_once (dead m) process_id s of
                    Inl e \<Rightarrow> Inl e | Inr d \<Rightarrow> Inr (m\<lparr>dead := d\<rparr>, res))
               else
                 (let m1 = (if str_contains ''gpu'' process_id
                            then m\<lparr>gpu_processes := register_gpu ind_split (gpu_processes m)\<rparr>
                            else m)
                  in Inr (m1, dict_set res ind s)))
         else Inr (m, res))"

text \<open>The loop over \<^verbatim>\<open>data.items()\<close>; an exception ends it.\<close>

fun track_loop ::
  "string \<Rightarrow> 'tr process_model \<times> (string \<times> series_model) list \<Rightarrow> (string \<times> series_model) list
     \<Rightarrow> py_error + ('tr process_model \<times> (string \<times> series_model) list)" where
  "track_loop PROCESS st [] = Inr st"
| "track_loop PROCESS st ((ind, s) # rest) =
     (case track_item PROCESS st ind s of
        Inl e \<Rightarrow> Inl e
      | Inr st' \<Rightarrow> track_loop PROCESS st' rest)"

text \<open>
  \<^verbatim>\<open>track\<close>: the loop starts from an empty \<^verbatim>\<open>res\<close> and hands it to
  \<^verbatim>\<open>SeriesCollection.track\<close> (\<^verbatim>\<open>self.process.track(res)\<close>), which belongs to the series
  store: \<open>append_batch\<close> is its effect on the \<^verbatim>\<open>tracking\<close> dict.
\<close>

definition track ::
  "string \<Rightarrow> ((string \<times> 'tr) list \<Rightarrow> (string \<times> series_model) list \<Rightarrow> (string \<times> 'tr) list)
     \<Rightarrow> 'tr process_model \<Rightarrow> (string \<times> series_model) list \<Rightarrow> py_error + 'tr process_model" where
  "track PROCESS append_batch m data =
     (case track_loop PROCESS (m, []) data of
        Inl e \<Rightarrow> Inl e
      | Inr (m', res) \<Rightarrow> Inr (m'\<lparr>tracking := append_batch (tracking m') res\<rparr>))"

section \<open>The live table: \<^verbatim>\<open>ProcessAnalysis.get_tracking\<close>\<close>

text \<open>
  The dicts of \<^verbatim>\<open>res\<close> are shared: line 146 stores in \<^verbatim>\<open>zero_cpu_processes\<close> the very
  dict that \<^verbatim>\<open>res[process_id]\<close> holds, and lines 147 and 150 write to it afterwards. So the
  per-process dicts live in a store (\<open>heap\<close>, addressed by position), and \<^verbatim>\<open>res\<close> and
  \<^verbatim>\<open>zero_cpu_processes\<close> hold addresses.
\<close>

record tracking_state =
  heap :: "proc_rec list"
  res :: "(string \<times> nat) list"
  zero :: "(string \<times> nat) list"

text \<open>Lines 133--138: the dict a process id gets on first encounter.\<close>

definition new_record :: "'tr process_model \<Rightarrow> string \<Rightarrow> pyval \<Rightarrow> proc_rec" where
  "new_record m process_id d =
     \<lparr>r_process_id = process_id,
      r_dead = d,
      r_pid = dict_get (pids m) process_id (VInt 0),
      r_name = dict_get (names m) process_id (VStr []),
      is_zero_cpu = False,
      cpu = None,
      rss = None\<rparr>"

text \<open>
  Lines 132--138: \<^verbatim>\<open>if process_id not in res: res[process_id] = {...}\<close>; the result is
  the address that \<^verbatim>\<open>res[process_id]\<close> denotes from then on, and the state.
\<close>

definition materialize ::
  "'tr process_model \<Rightarrow> string \<Rightarrow> pyval \<Rightarrow> tracking_state \<Rightarrow> nat \<times> tracking_state" where
  "materialize m process_id d st =
     (case map_of (res st) process_id of
        Some a \<Rightarrow> (a, st)
      | None \<Rightarrow>
          (length (heap st),
           st\<lparr>heap := heap st @ [new_record m process_id d],
              res := res st @ [(process_id, length (heap st))]\<rparr>))"

text \<open>\<^verbatim>\<open>v[suffix] = series\<close> for a suffix that is \<^verbatim>\<open>'cpu'\<close> or \<^verbatim>\<open>'rss'\<close>.\<close>

definition set_metric :: "string \<Rightarrow> detail \<Rightarrow> proc_rec \<Rightarrow> proc_rec" where
  "set_metric suffix d v = (if suffix = ''cpu'' then v\<lparr>cpu := Some d\<rparr> else v\<lparr>rss := Some d\<rparr>)"

text \<open>
  One iteration of the loop over \<^verbatim>\<open>self.process.tracking.items()\<close> (lines 125--150);
  \<open>load\<close> is \<^verbatim>\<open>Series().load\<close>, which belongs to the series store.
\<close>

definition tracking_step ::
  "('tr \<Rightarrow> series) \<Rightarrow> 'tr process_model \<Rightarrow> tracking_state \<Rightarrow> string \<times> 'tr \<Rightarrow> tracking_state" where
  "tracking_step load m st entry =
     (let ind = fst entry; trk = snd entry;
          ind_split = split_dot ind;
          process_id = join_dot (butlast ind_split);
          d = dict_get (dead m) process_id (VInt 0)
      in if truthy d then st
         else
           (let (a, st1) = materialize m process_id d st;
                suffix = last ind_split
            in if suffix \<in> set [''cpu'', ''rss''] then
                 (let s = load trk;
                      st2 = (if suffix = ''cpu'' \<and> mean s < ALMOST_ZERO
                             then st1\<lparr>zero := dict_set (zero st1) process_id a,
                                     heap := (heap st1)[a := (heap st1 ! a)\<lparr>is_zero_cpu := True\<rparr>]\<rparr>
                             else st1)
                  in st2\<lparr>heap := (heap st2)[a := set_metric suffix (sdetail s) (heap st2 ! a)]\<rparr>)
               else st1))"

text \<open>
  The sort key \<^verbatim>\<open>s['cpu']['smoothed'][-1]\<close>: \<^verbatim>\<open>KeyError\<close> without a \<^verbatim>\<open>cpu\<close> entry,
  \<^verbatim>\<open>IndexError\<close> on an empty smoothed sequence.
\<close>

definition last_smoothed_cpu :: "proc_rec \<Rightarrow> py_error + real" where
  "last_smoothed_cpu v =
     (case cpu v of
        None \<Rightarrow> Inl (KeyError ''cpu'')
      | Some d \<Rightarrow> (case smoothed d of [] \<Rightarrow> Inl IndexError | x # xs \<Rightarrow> Inr (last (x # xs))))"

text \<open>
  \<^verbatim>\<open>list.sort(key=...)\<close> first computes the key of every element, in order, whatever the
  length of the list; the first exception ends the sort.
\<close>

fun sort_keys :: "proc_rec list \<Rightarrow> py_error + real list" where
  "sort_keys [] = Inr []"
| "sort_keys (v # vs) =
     (case last_smoothed_cpu v of
        Inl e \<Rightarrow> Inl e
      | Inr k \<Rightarrow> (case sort_keys vs of Inl e \<Rightarrow> Inl e | Inr ks \<Rightarrow> Inr (k # ks)))"

text \<open>
  \<^verbatim>\<open>reverse=True\<close>: descending by key, and stable (elements with equal keys keep their
  order). \<open>xs\<close> are the elements, \<open>ks\<close> their keys.
\<close>

definition sort_desc :: "'a list \<Rightarrow> real list \<Rightarrow> 'a list" where
  "sort_desc xs ks = map fst (sort_key (\<lambda>p. - snd p) (zip xs ks))"

text \<open>
  Lines 161--164, on the addresses of \<^verbatim>\<open>ret[:5]\<close>: \<^verbatim>\<open>v['cpu']['name'] = v['name']\<close> and
  \<^verbatim>\<open>summary.append(v['cpu'])\<close>.
\<close>

fun top_loop :: "proc_rec list \<times> detail list \<Rightarrow> nat list \<Rightarrow> py_error + (proc_rec list \<times> detail list)" where
  "top_loop hs [] = Inr hs"
| "top_loop hs (a # as) =
     (let h = fst hs; summary = snd hs; v = h ! a
      in case cpu v of
           None \<Rightarrow> Inl (KeyError ''cpu'')
         | Some d \<Rightarrow>
             (let d' = d\<lparr>dname := Some (r_name v)\<rparr>
              in top_loop (h[a := v\<lparr>cpu := Some d'\<rparr>], summary @ [d']) as))"

text \<open>The loop of lines 124--150, run over the whole series store from empty dicts.\<close>

definition final_state :: "('tr \<Rightarrow> series) \<Rightarrow> 'tr process_model \<Rightarrow> tracking_state" where
  "final_state load m =
     foldl (tracking_step load m) \<lparr>heap = [], res = [], zero = []\<rparr> (tracking m)"

text \<open>
  \<^verbatim>\<open>get_tracking\<close>. The result is the saved model together with \<^verbatim>\<open>ret\<close> and
  \<^verbatim>\<open>summary\<close>; the dicts are read from the store when the function returns.
\<close>

definition get_tracking ::
  "('tr \<Rightarrow> series) \<Rightarrow> 'tr process_model
     \<Rightarrow> py_error + ('tr process_model \<times> proc_rec list \<times> detail list)" where
  "get_tracking load m =
     (let st = final_state load m;
          h = heap st;
          ret = filter (\<lambda>a. \<not> (is_zero_cpu (h ! a) \<or> cpu (h ! a) = None \<or> rss (h ! a) = None))
                  (map snd (res st))
      in case sort_keys (map (\<lambda>a. h ! a) ret) of
           Inl e \<Rightarrow> Inl e
         | Inr ks \<Rightarrow>
             (let ret' = sort_desc ret ks
              in case top_loop (h, []) (take 5 ret') of
                   Inl e \<Rightarrow> Inl e
                 | Inr (h', summary) \<Rightarrow>
                     Inr (m\<lparr>zero_cpu_processes := map (\<lambda>(k, a). (k, h' ! a)) (zero st)\<rparr>,
                          map (\<lambda>a. h' ! a) ret',
                          summary)))"

section \<open>The zero-activity table: \<^verbatim>\<open>ProcessAnalysis.get_zero_cpu_processes\<close>\<close>

definition get_zero_cpu_processes :: "'tr process_model \<Rightarrow> py_error + proc_rec list" where
  "get_zero_cpu_processes m =
     (let ret = filter (\<lambda>v. \<not> (cpu v = None \<or> rss v = None)) (map snd (zero_cpu_processes m))
      in case sort_keys ret of
           Inl e \<Rightarrow> Inl e
         | Inr ks \<Rightarrow> Inr (sort_desc ret ks))"

section \<open>Process detail: \<^verbatim>\<open>ProcessAnalysis.get_process\<close>\<close>

record process_detail =
  pd_process_id :: string
  pd_name :: pyval
  pd_create_time :: pyval
  pd_cmdline :: pyval
  pd_exe :: pyval
  pd_pid :: pyval
  pd_ppid :: pyval
  pd_dead :: pyval
  pd_series :: "detail list"

text \<open>
  Lines 196--202 and 207--213: \<^verbatim>\<open>track = tracking.get(ind, {})\<close>, and when \<^verbatim>\<open>track\<close> is
  truthy the detail of the loaded series, named \<open>s_name\<close>, is appended. \<open>nonempty\<close> is
  the truth value of a stored series.
\<close>

definition named_series ::
  "('tr \<Rightarrow> series) \<Rightarrow> ('tr \<Rightarrow> bool) \<Rightarrow> 'tr process_model \<Rightarrow> string \<Rightarrow> string \<Rightarrow> detail list" where
  "named_series load nonempty m process_id s_name =
     (case map_of (tracking m) (process_id @ ''.'' @ s_name) of
        None \<Rightarrow> []
      | Some trk \<Rightarrow>
          (if nonempty trk then [(sdetail (load trk))\<lparr>dname := Some (VStr s_name)\<rparr>] else []))"

text \<open>
  \<^verbatim>\<open>get_process\<close>. \<^verbatim>\<open>self.process.names[process_id]\<close> raises \<^verbatim>\<open>KeyError\<close>; every other
  attribute is read with \<^verbatim>\<open>.get\<close> and a default. \<open>iter_order\<close> is the order in which
  Python iterates over a set, which the language leaves open.
\<close>

definition get_process ::
  "('tr \<Rightarrow> series) \<Rightarrow> ('tr \<Rightarrow> bool) \<Rightarrow> (string set \<Rightarrow> string list) \<Rightarrow> 'tr process_model \<Rightarrow> string
     \<Rightarrow> py_error + process_detail" where
  "get_process load nonempty iter_order m process_id =
     (case names m process_id of
        None \<Rightarrow> Inl (KeyError process_id)
      | Some nm \<Rightarrow>
          (let series_list = concat (map (named_series load nonempty m process_id) SERIES_NAMES);
               gpu_list = (case gpu_processes m process_id of None \<Rightarrow> [] | Some gs \<Rightarrow> iter_order gs);
               series_list' = series_list @
                 concat (map (\<lambda>gpu_process. named_series load nonempty m process_id (gpu_process @ ''.mem''))
                           gpu_list)
           in Inr \<lparr>pd_process_id = process_id,
                   pd_name = nm,
                   pd_create_time = dict_get (create_times m) process_id (VInt 0),
                   pd_cmdline = dict_get (cmdlines m) process_id (VStr []),
                   pd_exe = dict_get (exes m) process_id (VStr []),
                   pd_pid = dict_get (pids m) process_id (VInt 0),
                   pd_ppid = dict_get (ppids m) process_id (VInt 0),
                   pd_dead = dict_get (dead m) process_id (VInt 0),
                   pd_series = series_list'\<rparr>))"

text \<open>
  The route \<^verbatim>\<open>get_process_detail\<close> (lines 285--298) for the analysis that
  \<^verbatim>\<open>get_or_create\<close> returned: the object is truthy, so the status is 200 when
  \<^verbatim>\<open>get_process\<close> returns, and its exception is not caught.
\<close>

definition get_process_detail ::
  "('tr \<Rightarrow> series) \<Rightarrow> ('tr \<Rightarrow> bool) \<Rightarrow> (string set \<Rightarrow> string list) \<Rightarrow> 'tr process_model \<Rightarrow> string
     \<Rightarrow> py_error + (process_detail \<times> nat)" where
  "get_process_detail load nonempty iter_order m process_id =
     (case get_process load nonempty iter_order m process_id of
        Inl e \<Rightarrow> Inl e
      | Inr data \<Rightarrow> Inr (data, 200))"

section \<open>Auxiliary notions for the proofs\<close>

text \<open>Every attribute map of \<open>m\<close> is contained in the one of \<open>m'\<close>.\<close>

definition attrs_le :: "'tr process_model \<Rightarrow> 'tr process_model \<Rightarrow> bool" where
  "attrs_le m m' \<longleftrightarrow>
     names m \<subseteq>\<^sub>m names m' \<and> exes m \<subseteq>\<^sub>m exes m' \<and> cmdlines m \<subseteq>\<^sub>m cmdlines m' \<and>
     create_times m \<subseteq>\<^sub>m create_times m' \<and> pids m \<subseteq>\<^sub>m pids m' \<and> ppids m \<subseteq>\<^sub>m ppids m' \<and>
     dead m \<subseteq>\<^sub>m dead m'"

text \<open>A process id is live when its \<^verbatim>\<open>dead\<close> entry is absent or falsy (lines 128--129).\<close>

definition live :: "'tr process_model \<Rightarrow> string \<Rightarrow> bool" where
  "live m k \<longleftrightarrow> \<not> truthy (dict_get (dead m) k (VInt 0))"

text \<open>The condition of line 145 on an entry of the series store.\<close>

definition zero_cpu_entry :: "('tr \<Rightarrow> series) \<Rightarrow> string \<times> 'tr \<Rightarrow> bool" where
  "zero_cpu_entry load e \<longleftrightarrow> key_suffix (fst e) = ''cpu'' \<and> mean (load (snd e)) < ALMOST_ZERO"

text \<open>What lines 141--150 do to the dict of process \<open>k\<close> for one entry of the series store.\<close>

definition apply_entry :: "('tr \<Rightarrow> series) \<Rightarrow> string \<Rightarrow> proc_rec \<Rightarrow> string \<times> 'tr \<Rightarrow> proc_rec" where
  "apply_entry load k v e =
     (if key_process_id (fst e) = k \<and> key_suffix (fst e) \<in> {''cpu'', ''rss''}
      then set_metric (key_suffix (fst e)) (sdetail (load (snd e)))
             (if zero_cpu_entry load e then v\<lparr>is_zero_cpu := True\<rparr> else v)
      else v)"

text \<open>The dict of process \<open>k\<close> after the entries \<open>xs\<close> of the series store.\<close>

definition rec_of :: "('tr \<Rightarrow> series) \<Rightarrow> 'tr process_model \<Rightarrow> string \<Rightarrow> (string \<times> 'tr) list \<Rightarrow> proc_rec" where
  "rec_of load m k xs =
     foldl (apply_entry load k) (new_record m k (dict_get (dead m) k (VInt 0))) xs"

text \<open>
  The invariant of the loop of \<^verbatim>\<open>get_tracking\<close> after the entries \<open>xs\<close>: addresses are
  handed out in order, every key of \<^verbatim>\<open>res\<close> denotes the dict of its process, and
  \<^verbatim>\<open>zero_cpu_processes\<close> holds the addresses of exactly the dicts flagged zero-cpu.
\<close>

definition inv_core ::
  "('tr \<Rightarrow> series) \<Rightarrow> 'tr process_model \<Rightarrow> (string \<times> 'tr) list \<Rightarrow> tracking_state \<Rightarrow> bool" where
  "inv_core load m xs st \<longleftrightarrow>
     map snd (res st) = [0..<length (heap st)] \<and>
     distinct (map fst (res st)) \<and>
     (\<forall>k a. map_of (res st) k = Some a \<longrightarrow> heap st ! a = rec_of load m k xs) \<and>
     distinct (map fst (zero st)) \<and>
     (\<forall>k a. map_of (zero st) k = Some a \<longleftrightarrow>
            map_of (res st) k = Some a \<and> is_zero_cpu (rec_of load m k xs))"

definition tracking_inv ::
  "('tr \<Rightarrow> series) \<Rightarrow> 'tr process_model \<Rightarrow> (string \<times> 'tr) list \<Rightarrow> tracking_state \<Rightarrow> bool" where
  "tracking_inv load m xs st \<longleftrightarrow>
     inv_core load m xs st \<and>
     (\<forall>k. k \<in> dom (map_of (res st)) \<longleftrightarrow> live m k \<and> (\<exists>e \<in> set xs. key_process_id (fst e) = k))"

text \<open>Line 163: the dict \<open>v\<close> after \<^verbatim>\<open>v['cpu']['name'] = v['name']\<close>.\<close>

definition attach_name :: "proc_rec \<Rightarrow> proc_rec" where
  "attach_name v = (case cpu v of None \<Rightarrow> v | Some d \<Rightarrow> v\<lparr>cpu := Some (d\<lparr>dname := Some (r_name v)\<rparr>)\<rparr>)"

text \<open>The sort key of a dict that has one.\<close>

definition the_key :: "proc_rec \<Rightarrow> real" where
  "the_key v = (case last_smoothed_cpu v of Inl e \<Rightarrow> 0 | Inr x \<Rightarrow> x)"

text \<open>The addresses that pass the filter of lines 153--157, and these addresses in ranked
  order.\<close>

definition candidates :: "('tr \<Rightarrow> series) \<Rightarrow> 'tr process_model \<Rightarrow> nat list" where
  "candidates load m =
     filter (\<lambda>a. \<not> (is_zero_cpu (heap (final_state load m) ! a) \<or>
                    cpu (heap (final_state load m) ! a) = None \<or>
                    rss (heap (final_state load m) ! a) = None))
       (map snd (res (final_state load m)))"

definition ranked :: "('tr \<Rightarrow> series) \<Rightarrow> 'tr process_model \<Rightarrow> nat list" where
  "ranked load m =
     sort_key (\<lambda>a. - the_key (heap (final_state load m) ! a)) (candidates load m)"

text \<open>A process qualifies for the ranked list: it is live, has an entry in the series store,
  is not flagged zero-cpu and has both details.\<close>

definition qualifies :: "('tr \<Rightarrow> series) \<Rightarrow> 'tr process_model \<Rightarrow> string \<Rightarrow> bool" where
  "qualifies load m k \<longleftrightarrow>
     live m k \<and> (\<exists>e \<in> set (tracking m). key_process_id (fst e) = k) \<and>
     \<not> is_zero_cpu (rec_of load m k (tracking m)) \<and>
     cpu (rec_of load m k (tracking m)) \<noteq> None \<and>
     rss (rec_of load m k (tracking m)) \<noteq> None"

subsection \<open>Example states\<close>

text \<open>One idle process: its \<^verbatim>\<open>cpu\<close> series comes before its \<^verbatim>\<open>rss\<close> series.\<close>

definition ex_idle :: "series process_model" where
  "ex_idle = defaults\<lparr>tracking :=
     [(''process.p1.cpu'', \<lparr>mean = 0, sdetail = \<lparr>smoothed = [0], dname = None\<rparr>\<rparr>),
      (''process.p1.rss'', \<lparr>mean = 9, sdetail = \<lparr>smoothed = [8], dname = None\<rparr>\<rparr>)]\<rparr>"

text \<open>A busy process marked dead and a busy live one.\<close>

definition ex_dead :: "series process_model" where
  "ex_dead = defaults\<lparr>dead := [''process.p1'' \<mapsto> VFloat 1], tracking :=
     [(''process.p1.cpu'', \<lparr>mean = 5, sdetail = \<lparr>smoothed = [5], dname = None\<rparr>\<rparr>),
      (''process.p1.rss'', \<lparr>mean = 9, sdetail = \<lparr>smoothed = [8], dname = None\<rparr>\<rparr>),
      (''process.p2.cpu'', \<lparr>mean = 3, sdetail = \<lparr>smoothed = [3], dname = None\<rparr>\<rparr>),
      (''process.p2.rss'', \<lparr>mean = 9, sdetail = \<lparr>smoothed = [7], dname = None\<rparr>\<rparr>)]\<rparr>"

text \<open>Two busy processes; the second has the higher last smoothed \<^verbatim>\<open>cpu\<close> value.\<close>

definition ex_busy :: "series process_model" where
  "ex_busy = defaults\<lparr>names := [''process.p1'' \<mapsto> VStr ''sh'', ''process.p2'' \<mapsto> VStr ''py''],
     tracking :=
     [(''process.p1.cpu'', \<lparr>mean = 2, sdetail = \<lparr>smoothed = [1, 2], dname = None\<rparr>\<rparr>),
      (''process.p1.rss'', \<lparr>mean = 9, sdetail = \<lparr>smoothed = [8], dname = None\<rparr>\<rparr>),
      (''process.p2.cpu'', \<lparr>mean = 4, sdetail = \<lparr>smoothed = [3, 5], dname = None\<rparr>\<rparr>),
      (''process.p2.rss'', \<lparr>mean = 9, sdetail = \<lparr>smoothed = [7], dname = None\<rparr>\<rparr>)]\<rparr>"

text \<open>A process with an \<^verbatim>\<open>rss\<close> series only, and a complete one.\<close>

definition ex_partial :: "series process_model" where
  "ex_partial = defaults\<lparr>tracking :=
     [(''process.p1.rss'', \<lparr>mean = 9, sdetail = \<lparr>smoothed = [8], dname = None\<rparr>\<rparr>),
      (''process.p2.cpu'', \<lparr>mean = 3, sdetail = \<lparr>smoothed = [3], dname = None\<rparr>\<rparr>),
      (''process.p2.rss'', \<lparr>mean = 9, sdetail = \<lparr>smoothed = [7], dname = None\<rparr>\<rparr>)]\<rparr>"

text \<open>A cache that still holds a process whose \<^verbatim>\<open>cpu\<close> series is busy now.\<close>

definition ex_stale :: "series process_model" where
  "ex_stale = defaults\<lparr>
     zero_cpu_processes :=
       [(''process.p2'',
         \<lparr>r_process_id = ''process.p2'', r_dead = VInt 0, r_pid = VInt 0, r_name = VStr [],
          is_zero_cpu = True, cpu = Some \<lparr>smoothed = [0], dname = None\<rparr>, rss = None\<rparr>)],
     tracking :=
       [(''process.p1.cpu'', \<lparr>mean = 0, sdetail = \<lparr>smoothed = [0], dname = None\<rparr>\<rparr>),
        (''process.p2.cpu'', \<lparr>mean = 3, sdetail = \<lparr>smoothed = [3], dname = None\<rparr>\<rparr>)]\<rparr>"

text \<open>Two idle processes; the \<^verbatim>\<open>rss\<close> series of the first comes after both were stashed.\<close>

definition ex_late_rss :: "series process_model" where
  "ex_late_rss = defaults\<lparr>tracking :=
     [(''process.p1.cpu'', \<lparr>mean = 0, sdetail = \<lparr>smoothed = [0], dname = None\<rparr>\<rparr>),
      (''process.p2.cpu'', \<lparr>mean = 0, sdetail = \<lparr>smoothed = [0], dname = None\<rparr>\<rparr>),
      (''process.p1.rss'', \<lparr>mean = 9, sdetail = \<lparr>smoothed = [8], dname = None\<rparr>\<rparr>)]\<rparr>"

text \<open>
  Six busy processes, each with two smoothed \<^verbatim>\<open>cpu\<close> values: the order by the last value
  is the reverse of the order by the first one.
\<close>

definition ex_six :: "series process_model" where
  "ex_six = defaults\<lparr>names := [''process.p4'' \<mapsto> VStr ''py''],
     tracking :=
     [(''process.p1.cpu'', \<lparr>mean = 5, sdetail = \<lparr>smoothed = [9, 1], dname = None\<rparr>\<rparr>),
      (''process.p1.rss'', \<lparr>mean = 9, sdetail = \<lparr>smoothed = [8], dname = None\<rparr>\<rparr>),
      (''process.p2.cpu'', \<lparr>mean = 5, sdetail = \<lparr>smoothed = [8, 2], dname = None\<rparr>\<rparr>),
      (''process.p2.rss'', \<lparr>mean = 9, sdetail = \<lparr>smoothed = [8], dname = None\<rparr>\<rparr>),
      (''process.p3.cpu'', \<lparr>mean = 5, sdetail = \<lparr>smoothed = [7, 3], dname = None\<rparr>\<rparr>),
      (''process.p3.rss'', \<lparr>mean = 9, sdetail = \<lparr>smoothed = [8], dname = None\<rparr>\<rparr>),
      (''process.p4.cpu'', \<lparr>mean = 3, sdetail = \<lparr>smoothed = [1, 6], dname = None\<rparr>\<rparr>),
      (''process.p4.rss'', \<lparr>mean = 9, sdetail = \<lparr>smoothed = [8], dname = None\<rparr>\<rparr>),
      (''process.p5.cpu'', \<lparr>mean = 3, sdetail = \<lparr>smoothed = [2, 5], dname = None\<rparr>\<rparr>),
      (''process.p5.rss'', \<lparr>mean = 9, sdetail = \<lparr>smoothed = [8], dname = None\<rparr>\<rparr>),
      (''process.p6.cpu'', \<lparr>mean = 3, sdetail = \<lparr>smoothed = [3, 4], dname = None\<rparr>\<rparr>),
      (''process.p6.rss'', \<lparr>mean = 9, sdetail = \<lparr>smoothed = [8], dname = None\<rparr>\<rparr>)]\<rparr>"

section \<open>Properties of ingestion\<close>

lemma write_once_le: "write_once d p s = Inr d' \<Longrightarrow> d \<subseteq>\<^sub>m d'"
  by (auto simp: write_once_def map_le_def split: if_splits sum.splits)

lemma attrs_le_refl: "attrs_le m m"
  by (simp add: attrs_le_def)

lemma attrs_le_trans: "attrs_le a b \<Longrightarrow> attrs_le b c \<Longrightarrow> attrs_le a c"
  unfolding attrs_le_def by (meson map_le_trans)

lemma track_item_le:
  assumes "track_item P (m, rs) ind s = Inr (m', rs')"
  shows "attrs_le m m'"
  using assms
  by (auto simp: track_item_def Let_def attrs_le_def split: if_splits sum.splits dest: write_once_le)

lemma track_loop_le:
  "track_loop P (m, rs) data = Inr (m', rs') \<Longrightarrow> attrs_le m m'"
proof (induction data arbitrary: m rs)
  case Nil
  then show ?case by (simp add: attrs_le_refl)
next
  case (Cons x data)
  obtain ind s where x: "x = (ind, s)" by (cases x)
  from Cons.prems x obtain m1 rs1 where
    step: "track_item P (m, rs) ind s = Inr (m1, rs1)" and
    rest: "track_loop P (m1, rs1) data = Inr (m', rs')"
    by (auto split: sum.splits)
  from track_item_le[OF step] Cons.IH[OF rest] show ?case by (rule attrs_le_trans)
qed

lemma track_item_skip: "hd (split_dot ind) \<noteq> P \<Longrightarrow> track_item P st ind s = Inr st"
  by (simp add: track_item_def Let_def)

lemma track_loop_skip:
  "hd (split_dot ind) \<noteq> P \<Longrightarrow> track_loop P st (xs @ (ind, s) # ys) = track_loop P st (xs @ ys)"
proof (induction xs arbitrary: st)
  case Nil
  then show ?case by (simp add: track_item_skip)
next
  case (Cons x xs)
  obtain i t where x: "x = (i, t)" by (cases x)
  show ?case using Cons by (simp add: x split: sum.splits)
qed

text \<open>
  Claim C2 (first write wins). When \<^verbatim>\<open>track\<close> returns, every process id that one of the
  seven attribute maps (\<^verbatim>\<open>names\<close>, \<^verbatim>\<open>exes\<close>, \<^verbatim>\<open>cmdlines\<close>, \<^verbatim>\<open>create_times\<close>, \<^verbatim>\<open>pids\<close>,
  \<^verbatim>\<open>ppids\<close>, \<^verbatim>\<open>dead\<close>) held before the batch still has the value it had: a sample is
  written only for a process id that was absent from the map. \<^verbatim>\<open>dead\<close> is treated as the
  identity attributes are.
\<close>

theorem track_first_write_wins:
  assumes "track PROCESS append_batch m data = Inr m'"
  shows "(\<forall>p \<in> dom (names m). names m' p = names m p) \<and>
         (\<forall>p \<in> dom (exes m). exes m' p = exes m p) \<and>
         (\<forall>p \<in> dom (cmdlines m). cmdlines m' p = cmdlines m p) \<and>
         (\<forall>p \<in> dom (create_times m). create_times m' p = create_times m p) \<and>
         (\<forall>p \<in> dom (pids m). pids m' p = pids m p) \<and>
         (\<forall>p \<in> dom (ppids m). ppids m' p = ppids m p) \<and>
         (\<forall>p \<in> dom (dead m). dead m' p = dead m p)"
proof -
  from assms obtain m1 rs1 where
    loop: "track_loop PROCESS (m, []) data = Inr (m1, rs1)" and
    m': "m' = m1\<lparr>tracking := append_batch (tracking m1) rs1\<rparr>"
    by (auto simp: track_def split: sum.splits)
  from track_loop_le[OF loop] have "attrs_le m m1" .
  then show ?thesis
    by (simp add: m' attrs_le_def map_le_def)
qed

text \<open>
  A batch with a second \<^verbatim>\<open>name\<close> and a second \<^verbatim>\<open>dead\<close> sample for a process that has
  both: the model comes back as it was.
\<close>

theorem track_first_write_wins_witness:
  "track ''process'' (\<lambda>t b. t)
     (defaults\<lparr>names := [''process.p1'' \<mapsto> VStr ''a''], dead := [''process.p1'' \<mapsto> VBool True]\<rparr> :: unit process_model)
     [(''process.p1.name'', \<lparr>sm_value = [VStr ''b'']\<rparr>), (''process.p1.dead'', \<lparr>sm_value = [VBool False]\<rparr>)]
   = Inr (defaults\<lparr>names := [''process.p1'' \<mapsto> VStr ''a''], dead := [''process.p1'' \<mapsto> VBool True]\<rparr>) \<and>
   names (defaults\<lparr>names := [''process.p1'' \<mapsto> VStr ''a''], dead := [''process.p1'' \<mapsto> VBool True]\<rparr> :: unit process_model)
     ''process.p1'' = Some (VStr ''a'') \<and>
   dead (defaults\<lparr>names := [''process.p1'' \<mapsto> VStr ''a''], dead := [''process.p1'' \<mapsto> VBool True]\<rparr> :: unit process_model)
     ''process.p1'' = Some (VBool True)"
proof -
  have h: "track ''process'' (\<lambda>t b. t)
     (defaults\<lparr>names := [''process.p1'' \<mapsto> VStr ''a''], dead := [''process.p1'' \<mapsto> VBool True]\<rparr> :: unit process_model)
     [(''process.p1.name'', \<lparr>sm_value = [VStr ''b'']\<rparr>), (''process.p1.dead'', \<lparr>sm_value = [VBool False]\<rparr>)]
   = Inr (defaults\<lparr>names := [''process.p1'' \<mapsto> VStr ''a''], dead := [''process.p1'' \<mapsto> VBool True]\<rparr>)"
    by (simp add: track_def track_item_def write_once_def defaults_def Let_def)
  show ?thesis using h track_first_write_wins [OF h] by (simp add: defaults_def)
qed

text \<open>
  Claim C7, as the code has it. A key whose first dot-segment is not the analysis-type tag
  --- so every key of one segment other than the tag itself --- is skipped: the batch
  with the key and the batch without it give the same result, whether an error, or the
  same attribute maps, GPU sets and forwarded batch.
\<close>

theorem track_skips_foreign_key:
  assumes "hd (split_dot ind) \<noteq> PROCESS"
  shows "track_loop PROCESS st (xs @ (ind, s) # ys) = track_loop PROCESS st (xs @ ys) \<and>
         track PROCESS append_batch m (xs @ (ind, s) # ys) = track PROCESS append_batch m (xs @ ys)"
  using assms by (simp add: track_def track_loop_skip)

theorem track_skips_foreign_key_witness:
  "hd (split_dot ''name'') \<noteq> ''process'' \<and>
   track_loop ''process'' (defaults :: unit process_model, [])
     ([(''process.p1.cpu'', \<lparr>sm_value = [VFloat 1]\<rparr>)] @ (''name'', \<lparr>sm_value = []\<rparr>) # [])
   = Inr (defaults, [(''process.p1.cpu'', \<lparr>sm_value = [VFloat 1]\<rparr>)])"
proof -
  have h: "hd (split_dot ''name'') \<noteq> ''process''" by simp
  show ?thesis
    using h track_skips_foreign_key [OF h, of "(defaults :: unit process_model, [])"
        "[(''process.p1.cpu'', \<lparr>sm_value = [VFloat 1]\<rparr>)]" "\<lparr>sm_value = []\<rparr>" "[]"]
    by (simp add: track_item_def dict_set_def Let_def)
qed

text \<open>
  Claim C7 as stated fails for the key of one segment that is the tag itself: with the tag
  \<^verbatim>\<open>'process'\<close>, the key \<^verbatim>\<open>'process'\<close> has fewer than two segments and is put into the
  batch forwarded to the series store.
\<close>

theorem track_forwards_bare_tag:
  "length (split_dot ''process'') < 2 \<and>
   track_loop ''process'' (defaults :: unit process_model, []) [(''process'', \<lparr>sm_value = [VFloat 1]\<rparr>)]
     = Inr (defaults, [(''process'', \<lparr>sm_value = [VFloat 1]\<rparr>)])"
  by (simp add: track_item_def dict_set_def)

section \<open>Properties of the detail query\<close>

text \<open>
  Claim C8. \<^verbatim>\<open>get_process\<close> raises \<^verbatim>\<open>KeyError\<close> for a process id that has no entry in
  \<^verbatim>\<open>names\<close>, and the route passes the exception on instead of answering with a partial
  record. With a name recorded the query returns, whatever else is missing: an absent
  \<^verbatim>\<open>create_time\<close>, \<^verbatim>\<open>pid\<close>, \<^verbatim>\<open>ppid\<close> or \<^verbatim>\<open>dead\<close> reads as 0, an absent \<^verbatim>\<open>cmdline\<close> or
  \<^verbatim>\<open>exe\<close> as the empty string.
\<close>

theorem get_process_name_mandatory:
  "(names m process_id = None \<longrightarrow>
      get_process load nonempty iter_order m process_id = Inl (KeyError process_id) \<and>
      get_process_detail load nonempty iter_order m process_id = Inl (KeyError process_id)) \<and>
   (\<forall>nm. names m process_id = Some nm \<longrightarrow>
      (\<exists>d. get_process load nonempty iter_order m process_id = Inr d \<and>
           get_process_detail load nonempty iter_order m process_id = Inr (d, 200) \<and>
           pd_process_id d = process_id \<and> pd_name d = nm \<and>
           (create_times m process_id = None \<longrightarrow> pd_create_time d = VInt 0) \<and>
           (cmdlines m process_id = None \<longrightarrow> pd_cmdline d = VStr []) \<and>
           (exes m process_id = None \<longrightarrow> pd_exe d = VStr []) \<and>
           (pids m process_id = None \<longrightarrow> pd_pid d = VInt 0) \<and>
           (ppids m process_id = None \<longrightarrow> pd_ppid d = VInt 0) \<and>
           (dead m process_id = None \<longrightarrow> pd_dead d = VInt 0)))"
  by (simp add: get_process_def get_process_detail_def dict_get_def Let_def)

theorem get_process_name_mandatory_witness:
  "names (defaults\<lparr>pids := [''process.p1'' \<mapsto> VFloat 7]\<rparr> :: unit process_model) ''process.p1'' = None \<and>
   get_process (\<lambda>t. \<lparr>mean = 0, sdetail = \<lparr>smoothed = [], dname = None\<rparr>\<rparr>) (\<lambda>t. False) (\<lambda>gs. [])
     (defaults\<lparr>pids := [''process.p1'' \<mapsto> VFloat 7]\<rparr> :: unit process_model) ''process.p1''
   = Inl (KeyError ''process.p1'')"
  using get_process_name_mandatory [of "defaults\<lparr>pids := [''process.p1'' \<mapsto> VFloat 7]\<rparr> :: unit process_model"
      "''process.p1''" "\<lambda>t. \<lparr>mean = 0, sdetail = \<lparr>smoothed = [], dname = None\<rparr>\<rparr>" "\<lambda>t. False" "\<lambda>gs. []"]
  by (simp add: defaults_def)

section \<open>Composite keys\<close>

lemma split_dot_not_Nil: "split_dot s \<noteq> []"
  by (induction s) (auto split: list.splits)

lemma join_split_dot: "join_dot (split_dot s) = s"
proof (induction s)
  case Nil
  then show ?case by simp
next
  case (Cons c s)
  obtain w ws where ws: "split_dot s = w # ws"
    using split_dot_not_Nil[of s] by (cases "split_dot s") auto
  show ?case
  proof (cases "c = CHR ''.''")
    case True
    with Cons ws show ?thesis by simp
  next
    case False
    with Cons ws show ?thesis by (cases ws) auto
  qed
qed

section \<open>The dict of one process\<close>

lemma rec_of_snoc: "rec_of load m k (xs @ [e]) = apply_entry load k (rec_of load m k xs) e"
  by (simp add: rec_of_def)

lemma rec_of_Nil: "rec_of load m k [] = new_record m k (dict_get (dead m) k (VInt 0))"
  by (simp add: rec_of_def)

lemma apply_entry_other: "key_process_id (fst e) \<noteq> k \<Longrightarrow> apply_entry load k v e = v"
  by (simp add: apply_entry_def)

lemma apply_entry_fields:
  "r_process_id (apply_entry load k v e) = r_process_id v"
  "r_dead (apply_entry load k v e) = r_dead v"
  "r_pid (apply_entry load k v e) = r_pid v"
  "r_name (apply_entry load k v e) = r_name v"
  by (simp_all add: apply_entry_def set_metric_def)

lemma rec_of_fields:
  "r_process_id (rec_of load m k xs) = k"
  "r_dead (rec_of load m k xs) = dict_get (dead m) k (VInt 0)"
  "r_pid (rec_of load m k xs) = dict_get (pids m) k (VInt 0)"
  "r_name (rec_of load m k xs) = dict_get (names m) k (VStr [])"
  by (induction xs rule: rev_induct; simp add: rec_of_snoc apply_entry_fields rec_of_Nil new_record_def)+

lemma rec_of_no_entry:
  "\<forall>e \<in> set xs. key_process_id (fst e) \<noteq> k \<Longrightarrow>
   rec_of load m k xs = new_record m k (dict_get (dead m) k (VInt 0))"
  by (induction xs rule: rev_induct) (simp_all add: rec_of_snoc rec_of_Nil apply_entry_other)

lemma rec_of_is_zero_cpu:
  "is_zero_cpu (rec_of load m k xs) \<longleftrightarrow>
   (\<exists>e \<in> set xs. key_process_id (fst e) = k \<and> zero_cpu_entry load e)"
proof (induction xs rule: rev_induct)
  case Nil
  show ?case by (simp add: rec_of_Nil new_record_def)
next
  case (snoc e xs)
  have "is_zero_cpu (apply_entry load k v e) \<longleftrightarrow>
        is_zero_cpu v \<or> key_process_id (fst e) = k \<and> zero_cpu_entry load e" for v
    by (auto simp: apply_entry_def set_metric_def zero_cpu_entry_def)
  with snoc show ?case by (auto simp: rec_of_snoc)
qed

lemma rec_of_cpu:
  "cpu (rec_of load m k xs) \<noteq> None \<longleftrightarrow>
   (\<exists>e \<in> set xs. key_process_id (fst e) = k \<and> key_suffix (fst e) = ''cpu'')"
proof (induction xs rule: rev_induct)
  case Nil
  show ?case by (simp add: rec_of_Nil new_record_def)
next
  case (snoc e xs)
  have "cpu (apply_entry load k v e) \<noteq> None \<longleftrightarrow>
        cpu v \<noteq> None \<or> key_process_id (fst e) = k \<and> key_suffix (fst e) = ''cpu''" for v
    by (auto simp: apply_entry_def set_metric_def)
  with snoc show ?case by (auto simp: rec_of_snoc)
qed

lemma rec_of_rss:
  "rss (rec_of load m k xs) \<noteq> None \<longleftrightarrow>
   (\<exists>e \<in> set xs. key_process_id (fst e) = k \<and> key_suffix (fst e) = ''rss'')"
proof (induction xs rule: rev_induct)
  case Nil
  show ?case by (simp add: rec_of_Nil new_record_def)
next
  case (snoc e xs)
  have "rss (apply_entry load k v e) \<noteq> None \<longleftrightarrow>
        rss v \<noteq> None \<or> key_process_id (fst e) = k \<and> key_suffix (fst e) = ''rss''" for v
    by (auto simp: apply_entry_def set_metric_def)
  with snoc show ?case by (auto simp: rec_of_snoc)
qed

lemma rec_of_cpu_detail:
  "cpu (rec_of load m k xs) = Some d \<Longrightarrow>
   \<exists>e \<in> set xs. key_process_id (fst e) = k \<and> key_suffix (fst e) = ''cpu'' \<and> d = sdetail (load (snd e))"
proof (induction xs rule: rev_induct)
  case Nil
  then show ?case by (simp add: rec_of_Nil new_record_def)
next
  case (snoc e xs)
  then show ?case
    by (auto simp: rec_of_snoc apply_entry_def set_metric_def split: if_splits)
qed

lemma rec_of_rss_detail:
  "rss (rec_of load m k xs) = Some d \<Longrightarrow>
   \<exists>e \<in> set xs. key_process_id (fst e) = k \<and> key_suffix (fst e) = ''rss'' \<and> d = sdetail (load (snd e))"
proof (induction xs rule: rev_induct)
  case Nil
  then show ?case by (simp add: rec_of_Nil new_record_def)
next
  case (snoc e xs)
  then show ?case
    by (auto simp: rec_of_snoc apply_entry_def set_metric_def split: if_splits)
qed

lemma rec_of_zero_has_cpu: "is_zero_cpu (rec_of load m k xs) \<Longrightarrow> cpu (rec_of load m k xs) \<noteq> None"
  unfolding rec_of_is_zero_cpu rec_of_cpu by (auto simp: zero_cpu_entry_def)

subsection \<open>Sort keys and the descending stable sort\<close>

lemma sort_keys_Inr:
  "sort_keys vs = Inr ks \<Longrightarrow> ks = map the_key vs \<and> (\<forall>v \<in> set vs. last_smoothed_cpu v = Inr (the_key v))"
  by (induction vs arbitrary: ks) (auto simp: the_key_def split: sum.splits)

lemma sort_keys_Inl:
  "sort_keys vs = Inl e \<Longrightarrow> \<exists>v \<in> set vs. last_smoothed_cpu v = Inl e"
  by (induction vs) (auto split: sum.splits)

lemma sort_keys_total:
  "\<forall>v \<in> set vs. \<exists>x. last_smoothed_cpu v = Inr x \<Longrightarrow> sort_keys vs = Inr (map the_key vs)"
  by (induction vs) (auto simp: the_key_def split: sum.splits)

lemma insort_key_map:
  "insort_key f (g x) (map g xs) = map g (insort_key (\<lambda>x. f (g x)) x xs)"
  by (induction xs) auto

lemma sort_key_map: "sort_key f (map g xs) = map g (sort_key (\<lambda>x. f (g x)) xs)"
  by (induction xs) (auto simp: insort_key_map)

lemma sort_desc_map: "sort_desc xs (map key xs) = sort_key (\<lambda>x. - key x) xs"
proof -
  have "zip xs (map key xs) = map (\<lambda>x. (x, key x)) xs"
    by (induction xs) auto
  then show ?thesis
    by (simp add: sort_desc_def sort_key_map o_def)
qed

lemma sorted_neg_desc: "sorted (map (\<lambda>x. - (f x :: real)) xs) \<Longrightarrow> sorted_wrt (\<lambda>a b. b \<le> a) (map f xs)"
  by (induction xs) auto

subsection \<open>The loop over the first five records\<close>

lemma attach_name_fields:
  "r_process_id (attach_name v) = r_process_id v"
  "r_dead (attach_name v) = r_dead v"
  "r_pid (attach_name v) = r_pid v"
  "r_name (attach_name v) = r_name v"
  "is_zero_cpu (attach_name v) = is_zero_cpu v"
  "rss (attach_name v) = rss v"
  "cpu (attach_name v) = map_option (\<lambda>d. d\<lparr>dname := Some (r_name v)\<rparr>) (cpu v)"
  "last_smoothed_cpu (attach_name v) = last_smoothed_cpu v"
  by (simp_all add: attach_name_def last_smoothed_cpu_def split: option.splits)

lemma top_loop_result:
  assumes "distinct as" and "\<forall>a \<in> set as. a < length h \<and> cpu (h ! a) \<noteq> None"
  shows "\<exists>h'. top_loop (h, sm) as = Inr (h', sm @ map (\<lambda>a. the (cpu (attach_name (h ! a)))) as) \<and>
              length h' = length h \<and>
              (\<forall>b. h' ! b = (if b \<in> set as then attach_name (h ! b) else h ! b))"
  using assms
proof (induction as arbitrary: h sm)
  case Nil
  then show ?case by simp
next
  case (Cons a as)
  from Cons.prems obtain d where d: "cpu (h ! a) = Some d" and a: "a < length h" by auto
  let ?h1 = "h[a := (h ! a)\<lparr>cpu := Some (d\<lparr>dname := Some (r_name (h ! a))\<rparr>)\<rparr>]"
  have at: "attach_name (h ! a) = (h ! a)\<lparr>cpu := Some (d\<lparr>dname := Some (r_name (h ! a))\<rparr>)\<rparr>"
    by (simp add: attach_name_def d)
  have other: "\<forall>b \<in> set as. ?h1 ! b = h ! b"
  proof
    fix b assume "b \<in> set as"
    with Cons.prems(1) have "b \<noteq> a" by auto
    then show "?h1 ! b = h ! b" by simp
  qed
  have pre: "distinct as" "\<forall>b \<in> set as. b < length ?h1 \<and> cpu (?h1 ! b) \<noteq> None"
    using Cons.prems other by auto
  from Cons.IH[OF pre, of "sm @ [d\<lparr>dname := Some (r_name (h ! a))\<rparr>]"]
  obtain h' where
    r: "top_loop (?h1, sm @ [d\<lparr>dname := Some (r_name (h ! a))\<rparr>]) as =
          Inr (h', (sm @ [d\<lparr>dname := Some (r_name (h ! a))\<rparr>]) @ map (\<lambda>b. the (cpu (attach_name (?h1 ! b)))) as)"
    and l: "length h' = length ?h1"
    and n: "\<forall>b. h' ! b = (if b \<in> set as then attach_name (?h1 ! b) else ?h1 ! b)"
    by blast
  have m: "map (\<lambda>b. the (cpu (attach_name (?h1 ! b)))) as = map (\<lambda>b. the (cpu (attach_name (h ! b)))) as"
    using other by simp
  have "top_loop (h, sm) (a # as) =
          Inr (h', sm @ map (\<lambda>a. the (cpu (attach_name (h ! a)))) (a # as))"
    using r by (simp add: d Let_def m at)
  moreover have "length h' = length h" using l by simp
  moreover have "\<forall>b. h' ! b = (if b \<in> set (a # as) then attach_name (h ! b) else h ! b)"
  proof
    fix b
    show "h' ! b = (if b \<in> set (a # as) then attach_name (h ! b) else h ! b)"
    proof (cases "b = a")
      case True
      with Cons.prems(1) have "b \<notin> set as" by simp
      with n have "h' ! b = ?h1 ! b" by simp
      with True a at show ?thesis by simp
    next
      case False
      then have "?h1 ! b = h ! b" by simp
      with n False show ?thesis by simp
    qed
  qed
  ultimately show ?case by blast
qed

section \<open>The loop invariant of the live table\<close>

lemma tracking_step_dead:
  "\<not> live m (key_process_id (fst e)) \<Longrightarrow> tracking_step load m st e = st"
  by (simp add: tracking_step_def live_def key_process_id_def Let_def)

lemma distinct_snd_inj:
  "distinct (map snd xs) \<Longrightarrow> (k, a) \<in> set xs \<Longrightarrow> (k', a) \<in> set xs \<Longrightarrow> k = k'"
  by (induction xs) (auto simp: image_iff)

lemma tracking_step_live:
  assumes "live m (key_process_id (fst e))"
    and "materialize m (key_process_id (fst e)) (dict_get (dead m) (key_process_id (fst e)) (VInt 0)) st = (a, st1)"
    and "a < length (heap st1)"
  shows "tracking_step load m st e =
           st1\<lparr>heap := (heap st1)[a := apply_entry load (key_process_id (fst e)) (heap st1 ! a) e],
               zero := (if zero_cpu_entry load e
                        then dict_set (zero st1) (key_process_id (fst e)) a else zero st1)\<rparr>"
  using assms
  by (auto simp: tracking_step_def live_def key_process_id_def key_suffix_def Let_def
        apply_entry_def zero_cpu_entry_def set_metric_def)

lemma inv_core_addr:
  assumes "inv_core load m xs st" and "map_of (res st) k = Some a"
  shows "a < length (heap st)"
proof -
  from assms(2) have "(k, a) \<in> set (res st)" by (rule map_of_SomeD)
  then have "a \<in> set (map snd (res st))" by force
  with assms(1) show ?thesis by (simp add: inv_core_def)
qed

lemma inv_core_inj:
  assumes "inv_core load m xs st" and "map_of (res st) k = Some a" and "map_of (res st) k' = Some a"
  shows "k = k'"
proof -
  from assms(1) have "distinct (map snd (res st))" by (simp add: inv_core_def)
  moreover from assms(2,3) have "(k, a) \<in> set (res st)" "(k', a) \<in> set (res st)"
    by (auto dest: map_of_SomeD)
  ultimately show ?thesis by (rule distinct_snd_inj)
qed

lemma materialize_inv:
  assumes inv: "tracking_inv load m xs st" and lv: "live m k"
    and mat: "materialize m k (dict_get (dead m) k (VInt 0)) st = (a, st1)"
  shows "inv_core load m xs st1 \<and> map_of (res st1) k = Some a \<and>
         dom (map_of (res st1)) = insert k (dom (map_of (res st)))"
proof (cases "map_of (res st) k")
  case (Some a')
  with mat have "a = a'" "st1 = st" by (simp_all add: materialize_def)
  with inv Some show ?thesis by (auto simp: tracking_inv_def)
next
  case None
  let ?n = "length (heap st)"
  let ?new = "new_record m k (dict_get (dead m) k (VInt 0))"
  from mat None have a: "a = ?n"
    and st1: "st1 = st\<lparr>heap := heap st @ [?new], res := res st @ [(k, ?n)]\<rparr>"
    by (auto simp: materialize_def)
  from inv have core: "inv_core load m xs st" by (simp add: tracking_inv_def)
  from None have knotin: "k \<notin> fst ` set (res st)" by (simp add: map_of_eq_None_iff)
  have "\<forall>e \<in> set xs. key_process_id (fst e) \<noteq> k"
  proof
    fix e assume e: "e \<in> set xs"
    show "key_process_id (fst e) \<noteq> k"
    proof
      assume "key_process_id (fst e) = k"
      with e lv have "live m k \<and> (\<exists>e \<in> set xs. key_process_id (fst e) = k)" by blast
      with inv have "k \<in> dom (map_of (res st))" unfolding tracking_inv_def by blast
      with None show False by auto
    qed
  qed
  then have new: "rec_of load m k xs = ?new" by (rule rec_of_no_entry)
  have mo: "map_of (res st1) k' = (if k' = k then Some ?n else map_of (res st) k')" for k'
    using None by (auto simp: st1 map_of_append map_add_def split: option.splits)
  have 1: "map snd (res st1) = [0..<length (heap st1)]"
    using core by (simp add: st1 inv_core_def)
  have 2: "distinct (map fst (res st1))"
    using core knotin by (simp add: st1 inv_core_def)
  have 3: "\<forall>k' a'. map_of (res st1) k' = Some a' \<longrightarrow> heap st1 ! a' = rec_of load m k' xs"
  proof (intro allI impI)
    fix k' a' assume h: "map_of (res st1) k' = Some a'"
    show "heap st1 ! a' = rec_of load m k' xs"
    proof (cases "k' = k")
      case True
      with h mo have "a' = ?n" by simp
      then show ?thesis by (simp add: st1 True new)
    next
      case False
      with h mo have old: "map_of (res st) k' = Some a'" by simp
      then have "a' < ?n" by (rule inv_core_addr[OF core])
      moreover from core old have "heap st ! a' = rec_of load m k' xs" by (simp add: inv_core_def)
      ultimately show ?thesis by (simp add: st1 nth_append)
    qed
  qed
  have 4: "distinct (map fst (zero st1))"
    using core by (simp add: st1 inv_core_def)
  have nz: "\<not> is_zero_cpu (rec_of load m k xs)" by (simp add: new new_record_def)
  have 5: "\<forall>k' a'. map_of (zero st1) k' = Some a' \<longleftrightarrow>
             map_of (res st1) k' = Some a' \<and> is_zero_cpu (rec_of load m k' xs)"
  proof (intro allI)
    fix k' a'
    have z: "zero st1 = zero st" by (simp add: st1)
    from core have old: "map_of (zero st) k' = Some a' \<longleftrightarrow>
        map_of (res st) k' = Some a' \<and> is_zero_cpu (rec_of load m k' xs)"
      by (simp add: inv_core_def)
    show "map_of (zero st1) k' = Some a' \<longleftrightarrow>
             map_of (res st1) k' = Some a' \<and> is_zero_cpu (rec_of load m k' xs)"
    proof (cases "k' = k")
      case True
      with old None nz show ?thesis by (simp add: z mo)
    next
      case False
      with old show ?thesis by (simp add: z mo)
    qed
  qed
  have "dom (map_of (res st1)) = insert k (dom (map_of (res st)))"
    by (auto simp: mo dom_def)
  with 1 2 3 4 5 mo a show ?thesis by (simp add: inv_core_def)
qed

lemma update_inv:
  assumes core: "inv_core load m xs st1" and ka: "map_of (res st1) (key_process_id (fst e)) = Some a"
  shows "inv_core load m (xs @ [e])
           (st1\<lparr>heap := (heap st1)[a := apply_entry load (key_process_id (fst e)) (heap st1 ! a) e],
                zero := (if zero_cpu_entry load e
                         then dict_set (zero st1) (key_process_id (fst e)) a else zero st1)\<rparr>)"
    (is "inv_core load m (xs @ [e]) ?st'")
proof -
  let ?k = "key_process_id (fst e)"
  have a: "a < length (heap st1)" using core ka by (rule inv_core_addr)
  have r: "res ?st' = res st1" by simp
  have 1: "map snd (res ?st') = [0..<length (heap ?st')]"
    using core by (simp add: inv_core_def)
  have 2: "distinct (map fst (res ?st'))"
    using core by (simp add: inv_core_def)
  have 3: "\<forall>k' a'. map_of (res ?st') k' = Some a' \<longrightarrow> heap ?st' ! a' = rec_of load m k' (xs @ [e])"
  proof (intro allI impI)
    fix k' a' assume h: "map_of (res ?st') k' = Some a'"
    then have h': "map_of (res st1) k' = Some a'" by simp
    with core have old: "heap st1 ! a' = rec_of load m k' xs" by (simp add: inv_core_def)
    show "heap ?st' ! a' = rec_of load m k' (xs @ [e])"
    proof (cases "k' = ?k")
      case True
      with h' ka have "a' = a" by simp
      with a old True show ?thesis by (simp add: rec_of_snoc)
    next
      case False
      with inv_core_inj[OF core h' ] ka have "a' \<noteq> a" by auto
      with old False show ?thesis by (simp add: rec_of_snoc apply_entry_other)
    qed
  qed
  have 4: "distinct (map fst (zero ?st'))"
    using core by (simp add: inv_core_def dict_set_def distinct_update)
  have z: "is_zero_cpu (rec_of load m k' (xs @ [e])) \<longleftrightarrow>
           is_zero_cpu (rec_of load m k' xs) \<or> (k' = ?k \<and> zero_cpu_entry load e)" for k'
    by (auto simp: rec_of_is_zero_cpu)
  have 5: "\<forall>k' a'. map_of (zero ?st') k' = Some a' \<longleftrightarrow>
             map_of (res ?st') k' = Some a' \<and> is_zero_cpu (rec_of load m k' (xs @ [e]))"
  proof (intro allI)
    fix k' a'
    from core have old: "map_of (zero st1) k' = Some a' \<longleftrightarrow>
        map_of (res st1) k' = Some a' \<and> is_zero_cpu (rec_of load m k' xs)"
      by (simp add: inv_core_def)
    show "map_of (zero ?st') k' = Some a' \<longleftrightarrow>
             map_of (res ?st') k' = Some a' \<and> is_zero_cpu (rec_of load m k' (xs @ [e]))"
      using old ka by (auto simp: z dict_set_def update_conv')
  qed
  from 1 2 3 4 5 show ?thesis unfolding inv_core_def by blast
qed

lemma tracking_inv_init: "tracking_inv load m [] \<lparr>heap = [], res = [], zero = []\<rparr>"
  by (simp add: tracking_inv_def inv_core_def)

lemma tracking_inv_step:
  assumes inv: "tracking_inv load m xs st"
  shows "tracking_inv load m (xs @ [e]) (tracking_step load m st e)"
proof (cases "live m (key_process_id (fst e))")
  case False
  let ?k = "key_process_id (fst e)"
  have st: "tracking_step load m st e = st" using False by (rule tracking_step_dead)
  have same: "rec_of load m k' (xs @ [e]) = rec_of load m k' xs" if "live m k'" for k'
  proof -
    from that False have "?k \<noteq> k'" by auto
    then show ?thesis by (simp add: rec_of_snoc apply_entry_other)
  qed
  have lv: "live m k'" if "map_of (res st) k' = Some a'" for k' a'
    using inv that by (auto simp: tracking_inv_def dom_def)
  from inv have core: "inv_core load m xs st" by (simp add: tracking_inv_def)
  have "inv_core load m (xs @ [e]) st"
    unfolding inv_core_def
  proof (intro conjI allI impI)
    show "map snd (res st) = [0..<length (heap st)]" using core by (simp add: inv_core_def)
    show "distinct (map fst (res st))" using core by (simp add: inv_core_def)
    show "distinct (map fst (zero st))" using core by (simp add: inv_core_def)
    show "heap st ! a' = rec_of load m k' (xs @ [e])" if "map_of (res st) k' = Some a'" for k' a'
      using core that same[OF lv[OF that]] by (simp add: inv_core_def)
    show "map_of (zero st) k' = Some a' \<longleftrightarrow>
          map_of (res st) k' = Some a' \<and> is_zero_cpu (rec_of load m k' (xs @ [e]))" for k' a'
    proof (cases "map_of (res st) k' = Some a'")
      case True
      from same[OF lv[OF True]] core show ?thesis by (simp add: inv_core_def)
    next
      case False
      with core show ?thesis by (simp add: inv_core_def)
    qed
  qed
  moreover have "\<forall>k. k \<in> dom (map_of (res st)) \<longleftrightarrow>
      live m k \<and> (\<exists>e' \<in> set (xs @ [e]). key_process_id (fst e') = k)"
    using inv False by (auto simp: tracking_inv_def)
  ultimately show ?thesis by (simp add: st tracking_inv_def)
next
  case True
  let ?k = "key_process_id (fst e)"
  obtain a st1 where mat: "materialize m ?k (dict_get (dead m) ?k (VInt 0)) st = (a, st1)"
    by (cases "materialize m ?k (dict_get (dead m) ?k (VInt 0)) st")
  from materialize_inv[OF inv True mat] have
    core1: "inv_core load m xs st1" and ka: "map_of (res st1) ?k = Some a" and
    dm: "dom (map_of (res st1)) = insert ?k (dom (map_of (res st)))"
    by simp_all
  have a: "a < length (heap st1)" using core1 ka by (rule inv_core_addr)
  let ?st' = "st1\<lparr>heap := (heap st1)[a := apply_entry load ?k (heap st1 ! a) e],
                zero := (if zero_cpu_entry load e then dict_set (zero st1) ?k a else zero st1)\<rparr>"
  have st: "tracking_step load m st e = ?st'" using True mat a by (rule tracking_step_live)
  have "inv_core load m (xs @ [e]) ?st'" using core1 ka by (rule update_inv)
  moreover have "\<forall>k. k \<in> dom (map_of (res ?st')) \<longleftrightarrow>
      live m k \<and> (\<exists>e' \<in> set (xs @ [e]). key_process_id (fst e') = k)"
    using inv True dm by (auto simp: tracking_inv_def)
  ultimately show ?thesis unfolding st tracking_inv_def by blast
qed

lemma tracking_inv_foldl:
  "tracking_inv load m xs st \<Longrightarrow> tracking_inv load m (xs @ ys) (foldl (tracking_step load m) st ys)"
proof (induction ys arbitrary: xs st)
  case Nil
  then show ?case by simp
next
  case (Cons e ys)
  from tracking_inv_step[OF Cons.prems, of e] Cons.IH[of "xs @ [e]" "tracking_step load m st e"]
  show ?case by simp
qed

lemma tracking_inv_final:
  "tracking_inv load m xs (foldl (tracking_step load m) \<lparr>heap = [], res = [], zero = []\<rparr> xs)"
  using tracking_inv_foldl[OF tracking_inv_init, of load m xs] by simp

section \<open>The result of the live table\<close>

lemma final_inv: "tracking_inv load m (tracking m) (final_state load m)"
  unfolding final_state_def by (rule tracking_inv_final)

lemma final_core: "inv_core load m (tracking m) (final_state load m)"
  using final_inv[of load m] by (simp add: tracking_inv_def)

lemma res_map_of:
  "a \<in> set (map snd (res (final_state load m))) \<Longrightarrow> \<exists>k. map_of (res (final_state load m)) k = Some a"
proof -
  assume "a \<in> set (map snd (res (final_state load m)))"
  then obtain k where "(k, a) \<in> set (res (final_state load m))" by auto
  moreover have "distinct (map fst (res (final_state load m)))"
    using final_core[of load m] by (simp add: inv_core_def)
  ultimately show ?thesis by (auto intro: map_of_is_SomeI)
qed

lemma final_heap:
  "map_of (res (final_state load m)) k = Some a \<Longrightarrow>
   heap (final_state load m) ! a = rec_of load m k (tracking m)"
  using final_core[of load m] by (simp add: inv_core_def)

lemma final_dom:
  "(\<exists>a. map_of (res (final_state load m)) k = Some a) \<longleftrightarrow>
   live m k \<and> (\<exists>e \<in> set (tracking m). key_process_id (fst e) = k)"
  using final_inv[of load m] by (auto simp: tracking_inv_def dom_def)

lemma candidates_iff:
  "a \<in> set (candidates load m) \<longleftrightarrow>
   (\<exists>k. map_of (res (final_state load m)) k = Some a \<and> qualifies load m k)"
proof
  assume "a \<in> set (candidates load m)"
  then have mem: "a \<in> set (map snd (res (final_state load m)))"
    and c: "\<not> is_zero_cpu (heap (final_state load m) ! a)"
       "cpu (heap (final_state load m) ! a) \<noteq> None" "rss (heap (final_state load m) ! a) \<noteq> None"
    by (auto simp: candidates_def)
  from res_map_of[OF mem] obtain k where k: "map_of (res (final_state load m)) k = Some a" ..
  from final_dom[of load m k] k have "live m k \<and> (\<exists>e \<in> set (tracking m). key_process_id (fst e) = k)"
    by blast
  with c final_heap[OF k] have "qualifies load m k" by (simp add: qualifies_def)
  with k show "\<exists>k. map_of (res (final_state load m)) k = Some a \<and> qualifies load m k" by blast
next
  assume "\<exists>k. map_of (res (final_state load m)) k = Some a \<and> qualifies load m k"
  then obtain k where k: "map_of (res (final_state load m)) k = Some a" and q: "qualifies load m k"
    by blast
  from k have "(k, a) \<in> set (res (final_state load m))" by (rule map_of_SomeD)
  then have "a \<in> set (map snd (res (final_state load m)))" by force
  with q final_heap[OF k] show "a \<in> set (candidates load m)"
    by (simp add: candidates_def qualifies_def)
qed

lemma distinct_candidates: "distinct (candidates load m)"
proof -
  have "distinct (map snd (res (final_state load m)))"
    using final_core[of load m] by (simp add: inv_core_def)
  then show ?thesis by (simp add: candidates_def)
qed

lemma set_ranked: "set (ranked load m) = set (candidates load m)"
  by (simp add: ranked_def)

lemma distinct_ranked: "distinct (ranked load m)"
  by (simp add: ranked_def distinct_candidates)

lemma length_ranked: "length (ranked load m) = length (candidates load m)"
  by (simp add: ranked_def)

lemma ranked_addr:
  assumes "a \<in> set (ranked load m)"
  shows "a < length (heap (final_state load m)) \<and> cpu (heap (final_state load m) ! a) \<noteq> None"
proof -
  from assms have c: "a \<in> set (candidates load m)" by (simp add: set_ranked)
  then obtain k where k: "map_of (res (final_state load m)) k = Some a"
    by (auto simp: candidates_iff)
  from inv_core_addr[OF final_core k] c show ?thesis by (simp add: candidates_def)
qed

lemma get_tracking_unfold:
  "get_tracking load m =
     (case sort_keys (map (\<lambda>a. heap (final_state load m) ! a) (candidates load m)) of
        Inl e \<Rightarrow> Inl e
      | Inr ks \<Rightarrow>
          (case top_loop (heap (final_state load m), []) (take 5 (sort_desc (candidates load m) ks)) of
             Inl e \<Rightarrow> Inl e
           | Inr (h', summary) \<Rightarrow>
               Inr (m\<lparr>zero_cpu_processes := map (\<lambda>(k, a). (k, h' ! a)) (zero (final_state load m))\<rparr>,
                    map (\<lambda>a. h' ! a) (sort_desc (candidates load m) ks),
                    summary)))"
  unfolding get_tracking_def candidates_def Let_def by (rule refl)

lemma get_tracking_Inl:
  assumes "get_tracking load m = Inl e"
  shows "\<exists>a \<in> set (candidates load m). last_smoothed_cpu (heap (final_state load m) ! a) = Inl e"
proof -
  let ?h = "heap (final_state load m)"
  show ?thesis
  proof (cases "sort_keys (map (\<lambda>a. ?h ! a) (candidates load m))")
    case (Inl e')
    with assms have "e' = e"
      by (simp add: get_tracking_unfold)
    with sort_keys_Inl[OF Inl] show ?thesis by auto
  next
    case (Inr ks)
    from sort_keys_Inr[OF Inr] have ks: "ks = map (\<lambda>a. the_key (?h ! a)) (candidates load m)"
      by (simp add: o_def)
    have ra: "sort_desc (candidates load m) ks = ranked load m"
      unfolding ks ranked_def by (rule sort_desc_map)
    have d: "distinct (take 5 (ranked load m))" by (simp add: distinct_ranked)
    have c: "\<forall>a \<in> set (take 5 (ranked load m)). a < length ?h \<and> cpu (?h ! a) \<noteq> None"
      using ranked_addr by (metis in_set_takeD)
    from top_loop_result[OF d c, of "[]"] obtain h' where
      "top_loop (?h, []) (take 5 (ranked load m)) =
         Inr (h', [] @ map (\<lambda>a. the (cpu (attach_name (?h ! a)))) (take 5 (ranked load m)))"
      by blast
    with assms Inr ra show ?thesis
      by (simp add: get_tracking_unfold)
  qed
qed

lemma get_tracking_Inr:
  assumes "get_tracking load m = Inr (m', ret, summary)"
  shows "ret = map (\<lambda>a. if a \<in> set (take 5 (ranked load m))
                        then attach_name (heap (final_state load m) ! a)
                        else heap (final_state load m) ! a) (ranked load m)"
    and "summary = map (\<lambda>a. the (cpu (attach_name (heap (final_state load m) ! a)))) (take 5 (ranked load m))"
    and "m' = m\<lparr>zero_cpu_processes :=
                 map (\<lambda>(k, a). (k, if a \<in> set (take 5 (ranked load m))
                        then attach_name (heap (final_state load m) ! a)
                        else heap (final_state load m) ! a)) (zero (final_state load m))\<rparr>"
    and "\<forall>a \<in> set (ranked load m). last_smoothed_cpu (heap (final_state load m) ! a)
            = Inr (the_key (heap (final_state load m) ! a))"
proof -
  let ?h = "heap (final_state load m)"
  obtain ks where Inr: "sort_keys (map (\<lambda>a. ?h ! a) (candidates load m)) = Inr ks"
    using assms
    by (cases "sort_keys (map (\<lambda>a. ?h ! a) (candidates load m))")
       (simp_all add: get_tracking_unfold)
  from sort_keys_Inr[OF Inr] have ks: "ks = map (\<lambda>a. the_key (?h ! a)) (candidates load m)"
    and keys: "\<forall>a \<in> set (candidates load m). last_smoothed_cpu (?h ! a) = Inr (the_key (?h ! a))"
    by (simp_all add: o_def)
  have ra: "sort_desc (candidates load m) ks = ranked load m"
    unfolding ks ranked_def by (rule sort_desc_map)
  have d: "distinct (take 5 (ranked load m))" by (simp add: distinct_ranked)
  have c: "\<forall>a \<in> set (take 5 (ranked load m)). a < length ?h \<and> cpu (?h ! a) \<noteq> None"
    using ranked_addr by (metis in_set_takeD)
  from top_loop_result[OF d c, of "[]"] obtain h' where
    tl: "top_loop (?h, []) (take 5 (ranked load m)) =
       Inr (h', map (\<lambda>a. the (cpu (attach_name (?h ! a)))) (take 5 (ranked load m)))"
    and h': "\<forall>b. h' ! b = (if b \<in> set (take 5 (ranked load m)) then attach_name (?h ! b) else ?h ! b)"
    by auto
  from assms Inr ra tl have
    r: "ret = map (\<lambda>a. h' ! a) (ranked load m)" and
    s: "summary = map (\<lambda>a. the (cpu (attach_name (?h ! a)))) (take 5 (ranked load m))" and
    m: "m' = m\<lparr>zero_cpu_processes := map (\<lambda>(k, a). (k, h' ! a)) (zero (final_state load m))\<rparr>"
    by (simp_all add: get_tracking_unfold)
  show "ret = map (\<lambda>a. if a \<in> set (take 5 (ranked load m)) then attach_name (?h ! a) else ?h ! a) (ranked load m)"
    using r h' by simp
  show "summary = map (\<lambda>a. the (cpu (attach_name (?h ! a)))) (take 5 (ranked load m))" by (rule s)
  show "m' = m\<lparr>zero_cpu_processes :=
                 map (\<lambda>(k, a). (k, if a \<in> set (take 5 (ranked load m))
                        then attach_name (?h ! a) else ?h ! a)) (zero (final_state load m))\<rparr>"
    using m h' by simp
  show "\<forall>a \<in> set (ranked load m). last_smoothed_cpu (?h ! a) = Inr (the_key (?h ! a))"
    using keys by (simp add: set_ranked)
qed

lemma zero_final_mem:
  "(k, a) \<in> set (zero (final_state load m)) \<longleftrightarrow>
   map_of (res (final_state load m)) k = Some a \<and> is_zero_cpu (rec_of load m k (tracking m))"
proof -
  have d: "distinct (map fst (zero (final_state load m)))"
    using final_core[of load m] by (simp add: inv_core_def)
  have "(k, a) \<in> set (zero (final_state load m)) \<longleftrightarrow> map_of (zero (final_state load m)) k = Some a"
    using d by (auto intro: map_of_is_SomeI dest: map_of_SomeD)
  also have "\<dots> \<longleftrightarrow> map_of (res (final_state load m)) k = Some a \<and>
                      is_zero_cpu (rec_of load m k (tracking m))"
    using final_core[of load m] by (simp add: inv_core_def)
  finally show ?thesis .
qed

lemma zero_not_ranked:
  assumes "(k, a) \<in> set (zero (final_state load m))"
  shows "a \<notin> set (ranked load m)" and "heap (final_state load m) ! a = rec_of load m k (tracking m)"
proof -
  from assms have r: "map_of (res (final_state load m)) k = Some a"
    and z: "is_zero_cpu (rec_of load m k (tracking m))"
    by (simp_all add: zero_final_mem)
  show h: "heap (final_state load m) ! a = rec_of load m k (tracking m)"
    using r by (rule final_heap)
  show "a \<notin> set (ranked load m)"
    using z h by (simp add: set_ranked candidates_def)
qed

lemma cache_after:
  assumes "get_tracking load m = Inr (m', ret, summary)"
  shows "zero_cpu_processes m' =
           map (\<lambda>(k, a). (k, rec_of load m k (tracking m))) (zero (final_state load m))"
proof -
  have "map (\<lambda>(k, a). (k, if a \<in> set (take 5 (ranked load m))
                        then attach_name (heap (final_state load m) ! a)
                        else heap (final_state load m) ! a)) (zero (final_state load m)) =
        map (\<lambda>(k, a). (k, rec_of load m k (tracking m))) (zero (final_state load m))"
  proof (rule map_cong[OF refl])
    fix p assume p: "p \<in> set (zero (final_state load m))"
    obtain k a where ka: "p = (k, a)" by (cases p)
    from zero_not_ranked[of k a load m] p ka
    have "a \<notin> set (ranked load m)" "heap (final_state load m) ! a = rec_of load m k (tracking m)"
      by simp_all
    moreover then have "a \<notin> set (take 5 (ranked load m))" by (meson in_set_takeD)
    ultimately show "(case p of (k, a) \<Rightarrow> (k, if a \<in> set (take 5 (ranked load m))
                        then attach_name (heap (final_state load m) ! a)
                        else heap (final_state load m) ! a)) =
        (case p of (k, a) \<Rightarrow> (k, rec_of load m k (tracking m)))"
      by (simp add: ka)
  qed
  with get_tracking_Inr(3)[OF assms] show ?thesis by simp
qed

lemma cache_mem:
  assumes "get_tracking load m = Inr (m', ret, summary)"
  shows "(k, r) \<in> set (zero_cpu_processes m') \<longleftrightarrow>
         r = rec_of load m k (tracking m) \<and> live m k \<and>
         (\<exists>e \<in> set (tracking m). key_process_id (fst e) = k \<and> zero_cpu_entry load e)"
proof -
  have "(k, r) \<in> set (zero_cpu_processes m') \<longleftrightarrow>
        r = rec_of load m k (tracking m) \<and> (\<exists>a. (k, a) \<in> set (zero (final_state load m)))"
    unfolding cache_after[OF assms] by auto
  also have "(\<exists>a. (k, a) \<in> set (zero (final_state load m))) \<longleftrightarrow>
        (\<exists>a. map_of (res (final_state load m)) k = Some a) \<and> is_zero_cpu (rec_of load m k (tracking m))"
    by (auto simp: zero_final_mem)
  also have "\<dots> \<longleftrightarrow> live m k \<and>
         (\<exists>e \<in> set (tracking m). key_process_id (fst e) = k \<and> zero_cpu_entry load e)"
    unfolding final_dom rec_of_is_zero_cpu by auto
  finally show ?thesis .
qed

lemma cache_distinct:
  assumes "get_tracking load m = Inr (m', ret, summary)"
  shows "distinct (map fst (zero_cpu_processes m'))"
proof -
  have "map fst (zero_cpu_processes m') = map fst (zero (final_state load m))"
    unfolding cache_after[OF assms] by (simp add: case_prod_unfold o_def)
  then show ?thesis using final_core[of load m] by (simp add: inv_core_def)
qed

lemma ret_mem:
  assumes "get_tracking load m = Inr (m', ret, summary)" and "r \<in> set ret"
  shows "\<exists>k. qualifies load m k \<and>
             (r = rec_of load m k (tracking m) \<or> r = attach_name (rec_of load m k (tracking m)))"
proof -
  from assms get_tracking_Inr(1)[OF assms(1)] obtain a where
    a: "a \<in> set (ranked load m)" and
    r: "r = (if a \<in> set (take 5 (ranked load m)) then attach_name (heap (final_state load m) ! a)
             else heap (final_state load m) ! a)"
    by auto
  from a obtain k where k: "map_of (res (final_state load m)) k = Some a" and q: "qualifies load m k"
    by (auto simp: set_ranked candidates_iff)
  from r final_heap[OF k] q show ?thesis by auto
qed

lemma ret_complete:
  assumes "get_tracking load m = Inr (m', ret, summary)" and "qualifies load m k"
  shows "\<exists>r \<in> set ret. r_process_id r = k"
proof -
  from assms(2) have "\<exists>a. map_of (res (final_state load m)) k = Some a"
    by (simp add: final_dom qualifies_def)
  then obtain a where k: "map_of (res (final_state load m)) k = Some a" ..
  with assms(2) have a: "a \<in> set (ranked load m)" by (auto simp: set_ranked candidates_iff)
  define f where "f = (\<lambda>a. if a \<in> set (take 5 (ranked load m))
                         then attach_name (heap (final_state load m) ! a)
                         else heap (final_state load m) ! a)"
  let ?r = "f a"
  have "ret = map f (ranked load m)"
    unfolding f_def by (rule get_tracking_Inr(1)[OF assms(1)])
  with a have "?r \<in> set ret" by simp
  moreover have "r_process_id ?r = k"
    by (simp add: f_def final_heap[OF k] attach_name_fields rec_of_fields)
  ultimately show ?thesis by blast
qed

lemma qualifies_fields:
  assumes "qualifies load m k"
    and "r = rec_of load m k (tracking m) \<or> r = attach_name (rec_of load m k (tracking m))"
  shows "r_process_id r = k" and "\<not> is_zero_cpu r" and "cpu r \<noteq> None" and "rss r \<noteq> None"
    and "r_name r = dict_get (names m) k (VStr [])"
  using assms by (auto simp: qualifies_def attach_name_fields rec_of_fields)

lemma last_smoothed_cpu_Inr:
  "cpu v = Some d \<Longrightarrow> smoothed d \<noteq> [] \<Longrightarrow> last_smoothed_cpu v = Inr (last (smoothed d))"
  by (cases "smoothed d") (simp_all add: last_smoothed_cpu_def)

lemma last_smoothed_cpu_Inl:
  "last_smoothed_cpu v = Inl e \<Longrightarrow>
   (cpu v = None \<and> e = KeyError ''cpu'') \<or> (\<exists>d. cpu v = Some d \<and> smoothed d = [] \<and> e = IndexError)"
  by (auto simp: last_smoothed_cpu_def split: option.splits list.splits)

lemma get_zero_Inr:
  assumes "get_zero_cpu_processes m = Inr zs"
  shows "zs = sort_key (\<lambda>v. - the_key v)
                (filter (\<lambda>v. \<not> (cpu v = None \<or> rss v = None)) (map snd (zero_cpu_processes m)))"
    and "\<forall>v \<in> set zs. last_smoothed_cpu v = Inr (the_key v)"
proof -
  let ?F = "filter (\<lambda>v. \<not> (cpu v = None \<or> rss v = None)) (map snd (zero_cpu_processes m))"
  from assms obtain ks where ks: "sort_keys ?F = Inr ks" and zs: "zs = sort_desc ?F ks"
    by (auto simp: get_zero_cpu_processes_def Let_def split: sum.splits)
  from sort_keys_Inr[OF ks] have k: "ks = map the_key ?F"
    and keys: "\<forall>v \<in> set ?F. last_smoothed_cpu v = Inr (the_key v)" by simp_all
  show z: "zs = sort_key (\<lambda>v. - the_key v) ?F"
    unfolding zs k by (rule sort_desc_map)
  show "\<forall>v \<in> set zs. last_smoothed_cpu v = Inr (the_key v)"
    using keys unfolding z by simp
qed

lemma get_zero_set:
  assumes "get_zero_cpu_processes m = Inr zs"
  shows "v \<in> set zs \<longleftrightarrow> v \<in> snd ` set (zero_cpu_processes m) \<and> cpu v \<noteq> None \<and> rss v \<noteq> None"
  unfolding get_zero_Inr(1)[OF assms] by auto

lemma get_zero_Inl:
  assumes "get_zero_cpu_processes m = Inl e"
  shows "e = IndexError \<and>
         (\<exists>v \<in> snd ` set (zero_cpu_processes m). \<exists>d. cpu v = Some d \<and> rss v \<noteq> None \<and> smoothed d = [])"
proof -
  let ?F = "filter (\<lambda>v. \<not> (cpu v = None \<or> rss v = None)) (map snd (zero_cpu_processes m))"
  from assms have "sort_keys ?F = Inl e"
    by (auto simp: get_zero_cpu_processes_def Let_def split: sum.splits)
  from sort_keys_Inl[OF this] obtain v where v: "v \<in> set ?F" and l: "last_smoothed_cpu v = Inl e"
    by blast
  from v have c: "cpu v \<noteq> None" "rss v \<noteq> None" "v \<in> snd ` set (zero_cpu_processes m)" by auto
  with last_smoothed_cpu_Inl[OF l] show ?thesis by auto
qed

lemma get_tracking_Inl_cause:
  assumes "get_tracking load m = Inl e"
  shows "e = IndexError \<and>
         (\<exists>x \<in> set (tracking m). key_suffix (fst x) = ''cpu'' \<and> smoothed (sdetail (load (snd x))) = [])"
proof -
  from get_tracking_Inl[OF assms] obtain a where a: "a \<in> set (candidates load m)"
    and l: "last_smoothed_cpu (heap (final_state load m) ! a) = Inl e" by blast
  from a obtain k where k: "map_of (res (final_state load m)) k = Some a" and q: "qualifies load m k"
    by (auto simp: candidates_iff)
  from l final_heap[OF k] have l': "last_smoothed_cpu (rec_of load m k (tracking m)) = Inl e" by simp
  from q have "cpu (rec_of load m k (tracking m)) \<noteq> None" by (simp add: qualifies_def)
  with last_smoothed_cpu_Inl[OF l'] obtain d where
    d: "cpu (rec_of load m k (tracking m)) = Some d" "smoothed d = []" and e: "e = IndexError"
    by auto
  from rec_of_cpu_detail[OF d(1)] d(2) e show ?thesis by auto
qed

lemma get_tracking_total:
  assumes "\<forall>x \<in> set (tracking m). key_suffix (fst x) = ''cpu'' \<longrightarrow> smoothed (sdetail (load (snd x))) \<noteq> []"
  shows "\<exists>m' ret summary. get_tracking load m = Inr (m', ret, summary)"
proof (cases "get_tracking load m")
  case (Inl e)
  from get_tracking_Inl_cause[OF Inl] assms show ?thesis by blast
next
  case (Inr r)
  then show ?thesis by (cases r) auto
qed

lemma zero_after_total:
  assumes gt: "get_tracking load m = Inr (m', ret, summary)"
    and ne: "\<forall>x \<in> set (tracking m). key_suffix (fst x) = ''cpu'' \<longrightarrow> smoothed (sdetail (load (snd x))) \<noteq> []"
  shows "\<exists>zs. get_zero_cpu_processes m' = Inr zs"
proof (cases "get_zero_cpu_processes m'")
  case (Inl e)
  from get_zero_Inl[OF Inl] obtain k v d where
    v: "(k, v) \<in> set (zero_cpu_processes m')" and d: "cpu v = Some d" "smoothed d = []"
    by force
  from v have "v = rec_of load m k (tracking m)" by (simp add: cache_mem[OF gt])
  with d(1) rec_of_cpu_detail obtain x where
    "x \<in> set (tracking m)" "key_suffix (fst x) = ''cpu''" "d = sdetail (load (snd x))"
    by blast
  with ne d(2) show ?thesis by auto
next
  case (Inr zs)
  then show ?thesis by blast
qed

lemma get_tracking_ignores_cache:
  "get_tracking load (m\<lparr>zero_cpu_processes := z\<rparr>) = get_tracking load m"
proof -
  have n: "new_record (m\<lparr>zero_cpu_processes := z\<rparr>) = new_record m"
    by (intro ext) (simp add: new_record_def)
  have mt: "materialize (m\<lparr>zero_cpu_processes := z\<rparr>) = materialize m"
    by (intro ext) (simp add: materialize_def n split: option.splits)
  have "tracking_step load (m\<lparr>zero_cpu_processes := z\<rparr>) = tracking_step load m"
    by (intro ext) (simp add: tracking_step_def mt Let_def)
  then have "final_state load (m\<lparr>zero_cpu_processes := z\<rparr>) = final_state load m"
    by (simp add: final_state_def)
  then show ?thesis by (simp add: get_tracking_def Let_def split: sum.splits prod.splits)
qed

lemma top5_keys:
  assumes gt: "get_tracking load m = Inr (m', ret, summary)"
  shows "(\<exists>ks. sort_keys ret = Inr ks \<and> sorted_wrt (\<lambda>a b. b \<le> a) ks) \<and>
         length summary = min 5 (length ret) \<and>
         map cpu (take 5 ret) = map Some summary \<and>
         (\<forall>r \<in> set (take 5 ret). \<exists>d. cpu r = Some d \<and> dname d = Some (r_name r)) \<and>
         (5 \<le> length ret \<longrightarrow> length summary = 5)"
proof -
  let ?h = "heap (final_state load m)"
  define f where "f = (\<lambda>a. if a \<in> set (take 5 (ranked load m)) then attach_name (?h ! a) else ?h ! a)"
  have ret: "ret = map f (ranked load m)"
    unfolding f_def by (rule get_tracking_Inr(1)[OF gt])
  have sm: "summary = map (\<lambda>a. the (cpu (attach_name (?h ! a)))) (take 5 (ranked load m))"
    by (rule get_tracking_Inr(2)[OF gt])
  have key: "last_smoothed_cpu (f a) = Inr (the_key (?h ! a))" if "a \<in> set (ranked load m)" for a
    using get_tracking_Inr(4)[OF gt] that by (simp add: f_def attach_name_fields)
  then have tk: "the_key (f a) = the_key (?h ! a)" if "a \<in> set (ranked load m)" for a
    using that by (simp add: the_key_def)
  have "sort_keys ret = Inr (map the_key ret)"
    unfolding ret by (rule sort_keys_total) (auto simp: key)
  moreover have "map the_key ret = map (\<lambda>a. the_key (?h ! a)) (ranked load m)"
    unfolding ret using tk by simp
  moreover have "sorted_wrt (\<lambda>a b. b \<le> a) (map (\<lambda>a. the_key (?h ! a)) (ranked load m))"
    by (rule sorted_neg_desc) (simp add: ranked_def)
  ultimately have 1: "\<exists>ks. sort_keys ret = Inr ks \<and> sorted_wrt (\<lambda>a b. b \<le> a) ks" by simp
  have 2: "length summary = min 5 (length ret)" by (simp add: sm ret min.commute)
  have top: "take 5 ret = map (\<lambda>a. attach_name (?h ! a)) (take 5 (ranked load m))"
    unfolding ret take_map by (simp add: f_def)
  have c: "cpu (attach_name (?h ! a)) = Some (the (cpu (attach_name (?h ! a)))) \<and>
           dname (the (cpu (attach_name (?h ! a)))) = Some (r_name (attach_name (?h ! a)))"
    if "a \<in> set (take 5 (ranked load m))" for a
  proof -
    from that have "a \<in> set (ranked load m)" by (rule in_set_takeD)
    from ranked_addr[OF this] show ?thesis by (auto simp: attach_name_fields)
  qed
  have 3: "map cpu (take 5 ret) = map Some summary"
    unfolding top sm using c by simp
  have 4: "\<forall>r \<in> set (take 5 ret). \<exists>d. cpu r = Some d \<and> dname d = Some (r_name r)"
    unfolding top using c by auto
  from 1 2 3 4 show ?thesis by simp
qed

lemma last_smoothed_cpu_InrD:
  "last_smoothed_cpu v = Inr x \<Longrightarrow> \<exists>d. cpu v = Some d \<and> smoothed d \<noteq> [] \<and> x = last (smoothed d)"
  by (auto simp: last_smoothed_cpu_def split: option.splits list.splits)

lemma conj_rearrange: "(C \<Longrightarrow> E) \<Longrightarrow> (L \<and> E \<and> \<not> Z \<and> C \<and> R) = (L \<and> C \<and> R \<and> \<not> Z)"
  by blast

lemma bex_conjD1: "\<exists>x \<in> S. P x \<and> Q x \<Longrightarrow> \<exists>x \<in> S. P x"
  by blast

lemma qualifies_store:
  "qualifies load m k \<longleftrightarrow>
     \<not> truthy (dict_get (dead m) k (VInt 0)) \<and>
     (\<exists>x \<in> set (tracking m). key_process_id (fst x) = k \<and> key_suffix (fst x) = ''cpu'') \<and>
     (\<exists>x \<in> set (tracking m). key_process_id (fst x) = k \<and> key_suffix (fst x) = ''rss'') \<and>
     \<not> (\<exists>x \<in> set (tracking m). key_process_id (fst x) = k \<and> key_suffix (fst x) = ''cpu'' \<and>
            mean (load (snd x)) < ALMOST_ZERO)"
  unfolding qualifies_def live_def rec_of_is_zero_cpu rec_of_cpu rec_of_rss zero_cpu_entry_def
  by (rule conj_rearrange) (rule bex_conjD1)

lemma ret_ids:
  assumes gt: "get_tracking load m = Inr (m', ret, summary)"
  shows "set (map r_process_id ret) = {k. qualifies load m k}"
proof (intro set_eqI iffI)
  fix k assume "k \<in> set (map r_process_id ret)"
  then obtain r where r: "r \<in> set ret" and k: "k = r_process_id r" by auto
  from ret_mem[OF gt r] obtain k' where q: "qualifies load m k'"
    and r': "r = rec_of load m k' (tracking m) \<or> r = attach_name (rec_of load m k' (tracking m))"
    by blast
  from qualifies_fields(1)[OF q r'] k q show "k \<in> {k. qualifies load m k}" by simp
next
  fix k assume "k \<in> {k. qualifies load m k}"
  then have "qualifies load m k" by simp
  from ret_complete[OF gt this] show "k \<in> set (map r_process_id ret)" by auto
qed

lemma ret_ids_distinct:
  assumes gt: "get_tracking load m = Inr (m', ret, summary)"
  shows "distinct (map r_process_id ret)"
proof -
  let ?h = "heap (final_state load m)"
  define f where "f = (\<lambda>a. if a \<in> set (take 5 (ranked load m)) then attach_name (?h ! a) else ?h ! a)"
  have ret: "ret = map f (ranked load m)"
    unfolding f_def by (rule get_tracking_Inr(1)[OF gt])
  have key: "map_of (res (final_state load m)) (r_process_id (f a)) = Some a"
    if "a \<in> set (ranked load m)" for a
  proof -
    from that obtain k where k: "map_of (res (final_state load m)) k = Some a"
      by (auto simp: set_ranked candidates_iff)
    have "r_process_id (f a) = k"
      by (simp add: f_def final_heap[OF k] attach_name_fields rec_of_fields)
    with k show ?thesis by simp
  qed
  have "inj_on (\<lambda>a. r_process_id (f a)) (set (ranked load m))"
  proof (rule inj_onI)
    fix a b
    assume a: "a \<in> set (ranked load m)" and b: "b \<in> set (ranked load m)"
      and eq: "r_process_id (f a) = r_process_id (f b)"
    from key[OF a] have "map_of (res (final_state load m)) (r_process_id (f b)) = Some a"
      by (simp only: eq)
    with key[OF b] have "Some a = Some b" by (simp only:)
    then show "a = b" by (simp only: option.inject)
  qed
  with distinct_ranked[of load m] have "distinct (map (\<lambda>a. r_process_id (f a)) (ranked load m))"
    by (simp add: distinct_map)
  then show ?thesis by (simp add: ret o_def)
qed

lemma ret_details:
  assumes gt: "get_tracking load m = Inr (m', ret, summary)" and r: "r \<in> set ret"
  shows "r_name r = dict_get (names m) (r_process_id r) (VStr [])"
    and "\<exists>d. cpu r = Some d \<and>
             (\<exists>x \<in> set (tracking m). key_process_id (fst x) = r_process_id r \<and>
                  key_suffix (fst x) = ''cpu'' \<and> smoothed d = smoothed (sdetail (load (snd x))))"
proof -
  from ret_mem[OF gt r] obtain k where q: "qualifies load m k"
    and r': "r = rec_of load m k (tracking m) \<or> r = attach_name (rec_of load m k (tracking m))"
    by blast
  from qualifies_fields(1,5)[OF q r'] have id: "r_process_id r = k"
    and nm: "r_name r = dict_get (names m) k (VStr [])" by simp_all
  from nm id show "r_name r = dict_get (names m) (r_process_id r) (VStr [])" by simp
  from q obtain d0 where d0: "cpu (rec_of load m k (tracking m)) = Some d0"
    by (auto simp: qualifies_def)
  from rec_of_cpu_detail[OF d0] obtain x where x: "x \<in> set (tracking m)"
    "key_process_id (fst x) = k" "key_suffix (fst x) = ''cpu''" "d0 = sdetail (load (snd x))"
    by blast
  from r' d0 obtain d where d: "cpu r = Some d" "smoothed d = smoothed d0"
    by (auto simp: attach_name_fields)
  show "\<exists>d. cpu r = Some d \<and>
             (\<exists>x \<in> set (tracking m). key_process_id (fst x) = r_process_id r \<and>
                  key_suffix (fst x) = ''cpu'' \<and> smoothed d = smoothed (sdetail (load (snd x))))"
  proof (intro exI conjI bexI)
    show "cpu r = Some d" by (rule d(1))
    show "key_process_id (fst x) = r_process_id r" by (simp only: id x(2))
    show "key_suffix (fst x) = ''cpu''" by (rule x(3))
    show "smoothed d = smoothed (sdetail (load (snd x)))" by (simp only: d(2) x(4))
    show "x \<in> set (tracking m)" by (rule x(1))
  qed
qed

section \<open>Properties of the live table and of the zero-activity table\<close>

lemmas eval_defs =
  get_tracking_def final_state_def get_zero_cpu_processes_def defaults_def tracking_step_def
  materialize_def
  new_record_def dict_get_def dict_set_def set_metric_def ALMOST_ZERO_def last_smoothed_cpu_def
  sort_desc_def key_process_id_def key_suffix_def Let_def

text \<open>
  Claim C1 (zero-cpu partition). Let \<^verbatim>\<open>get_tracking\<close> return, and let \<open>k\<close> be a process
  that is not marked dead and has a \<^verbatim>\<open>cpu\<close> series with mean below \<^verbatim>\<open>ALMOST_ZERO\<close> in the
  series store. Then no record of the ranked list belongs to \<open>k\<close>, and the rebuilt cache
  holds a record \<open>r\<close> of \<open>k\<close> with a \<^verbatim>\<open>cpu\<close> detail. If \<open>r\<close> also has an \<^verbatim>\<open>rss\<close> detail,
  every list returned by a following \<^verbatim>\<open>get_zero_cpu_processes\<close> contains \<open>r\<close>; and that call
  does return when the series store keeps its contract that the smoothed sequence of a
  \<^verbatim>\<open>cpu\<close> series is not empty.
\<close>

theorem zero_cpu_partition:
  assumes gt: "get_tracking load m = Inr (m', ret, summary)"
    and e: "e \<in> set (tracking m)" "key_process_id (fst e) = k"
    and z: "key_suffix (fst e) = ''cpu''" "mean (load (snd e)) < ALMOST_ZERO"
    and lv: "\<not> truthy (dict_get (dead m) k (VInt 0))"
  shows "(\<forall>r \<in> set ret. r_process_id r \<noteq> k) \<and>
         (\<exists>r. (k, r) \<in> set (zero_cpu_processes m') \<and> r_process_id r = k \<and> cpu r \<noteq> None \<and>
              (rss r \<noteq> None \<longrightarrow>
                 (\<forall>zs. get_zero_cpu_processes m' = Inr zs \<longrightarrow> r \<in> set zs) \<and>
                 ((\<forall>x \<in> set (tracking m). key_suffix (fst x) = ''cpu'' \<longrightarrow>
                      smoothed (sdetail (load (snd x))) \<noteq> []) \<longrightarrow>
                  (\<exists>zs. get_zero_cpu_processes m' = Inr zs \<and> r \<in> set zs))))"
proof -
  let ?r = "rec_of load m k (tracking m)"
  from e z have ze: "\<exists>e \<in> set (tracking m). key_process_id (fst e) = k \<and> zero_cpu_entry load e"
    by (auto simp: zero_cpu_entry_def)
  then have zr: "is_zero_cpu ?r" by (simp add: rec_of_is_zero_cpu)
  have 1: "\<forall>r \<in> set ret. r_process_id r \<noteq> k"
  proof
    fix r assume "r \<in> set ret"
    from ret_mem[OF gt this] obtain k' where q: "qualifies load m k'"
      and r: "r = rec_of load m k' (tracking m) \<or> r = attach_name (rec_of load m k' (tracking m))"
      by blast
    from qualifies_fields(1)[OF q r] have "r_process_id r = k'" .
    moreover from q zr have "k' \<noteq> k" by (auto simp: qualifies_def)
    ultimately show "r_process_id r \<noteq> k" by simp
  qed
  from ze lv have mem: "(k, ?r) \<in> set (zero_cpu_processes m')"
    by (simp add: cache_mem[OF gt] live_def)
  have in_zs: "?r \<in> set zs" if "rss ?r \<noteq> None" "get_zero_cpu_processes m' = Inr zs" for zs
    using that mem rec_of_zero_has_cpu[OF zr] by (force simp: get_zero_set)
  have 2: "rss ?r \<noteq> None \<longrightarrow>
         (\<forall>zs. get_zero_cpu_processes m' = Inr zs \<longrightarrow> ?r \<in> set zs) \<and>
         ((\<forall>x \<in> set (tracking m). key_suffix (fst x) = ''cpu'' \<longrightarrow>
              smoothed (sdetail (load (snd x))) \<noteq> []) \<longrightarrow>
          (\<exists>zs. get_zero_cpu_processes m' = Inr zs \<and> ?r \<in> set zs))"
    using in_zs zero_after_total[OF gt] by blast
  from 1 2 mem rec_of_zero_has_cpu[OF zr] show ?thesis
    using rec_of_fields(1)[of load m k "tracking m"] by blast
qed

text \<open>
  An idle process with both series: the ranked list is empty and the zero-activity table
  holds its record.
\<close>

theorem zero_cpu_partition_witness:
  "get_tracking (\<lambda>t. t) ex_idle =
     Inr (ex_idle\<lparr>zero_cpu_processes :=
            [(''process.p1'',
              \<lparr>r_process_id = ''process.p1'', r_dead = VInt 0, r_pid = VInt 0, r_name = VStr [],
               is_zero_cpu = True, cpu = Some \<lparr>smoothed = [0], dname = None\<rparr>,
               rss = Some \<lparr>smoothed = [8], dname = None\<rparr>\<rparr>)]\<rparr>, [], []) \<and>
   (''process.p1.cpu'', \<lparr>mean = 0, sdetail = \<lparr>smoothed = [0], dname = None\<rparr>\<rparr>) \<in> set (tracking ex_idle) \<and>
   key_process_id ''process.p1.cpu'' = ''process.p1'' \<and>
   key_suffix ''process.p1.cpu'' = ''cpu'' \<and>
   mean \<lparr>mean = 0, sdetail = \<lparr>smoothed = [0], dname = None\<rparr>\<rparr> < ALMOST_ZERO \<and>
   \<not> truthy (dict_get (dead ex_idle) ''process.p1'' (VInt 0)) \<and>
   get_zero_cpu_processes
     (ex_idle\<lparr>zero_cpu_processes :=
            [(''process.p1'',
              \<lparr>r_process_id = ''process.p1'', r_dead = VInt 0, r_pid = VInt 0, r_name = VStr [],
               is_zero_cpu = True, cpu = Some \<lparr>smoothed = [0], dname = None\<rparr>,
               rss = Some \<lparr>smoothed = [8], dname = None\<rparr>\<rparr>)]\<rparr>) =
     Inr [\<lparr>r_process_id = ''process.p1'', r_dead = VInt 0, r_pid = VInt 0, r_name = VStr [],
           is_zero_cpu = True, cpu = Some \<lparr>smoothed = [0], dname = None\<rparr>,
           rss = Some \<lparr>smoothed = [8], dname = None\<rparr>\<rparr>]"
proof -
  let ?s = "\<lparr>mean = 0, sdetail = \<lparr>smoothed = [0], dname = None\<rparr>\<rparr>"
  let ?r = "\<lparr>r_process_id = ''process.p1'', r_dead = VInt 0, r_pid = VInt 0, r_name = VStr [],
             is_zero_cpu = True, cpu = Some \<lparr>smoothed = [0], dname = None\<rparr>,
             rss = Some \<lparr>smoothed = [8], dname = None\<rparr>\<rparr>"
  have gt: "get_tracking (\<lambda>t. t) ex_idle =
              Inr (ex_idle\<lparr>zero_cpu_processes := [(''process.p1'', ?r)]\<rparr>, [], [])"
    by (simp add: ex_idle_def eval_defs)
  have e: "(''process.p1.cpu'', ?s) \<in> set (tracking ex_idle)"
    by (simp add: ex_idle_def defaults_def)
  have k: "key_process_id (fst (''process.p1.cpu'', ?s)) = ''process.p1''"
    by (simp add: key_process_id_def)
  have s: "key_suffix (fst (''process.p1.cpu'', ?s)) = ''cpu''"
    by (simp add: key_suffix_def)
  have mn: "mean (snd (''process.p1.cpu'', ?s)) < ALMOST_ZERO"
    by (simp add: ALMOST_ZERO_def)
  have lv: "\<not> truthy (dict_get (dead ex_idle) ''process.p1'' (VInt 0))"
    by (simp add: ex_idle_def defaults_def dict_get_def)
  have z: "get_zero_cpu_processes (ex_idle\<lparr>zero_cpu_processes := [(''process.p1'', ?r)]\<rparr>) = Inr [?r]"
    by (simp add: get_zero_cpu_processes_def last_smoothed_cpu_def sort_desc_def)
  note zero_cpu_partition [OF gt e k s mn lv]
  with gt e k s mn lv z show ?thesis by simp
qed

text \<open>
  Claim C3 (dead exclusion). For a process whose \<^verbatim>\<open>dead\<close> entry is truthy, no record of the
  ranked list returned by \<^verbatim>\<open>get_tracking\<close> belongs to it, whatever series are stored for
  it, and every entry of the summary is the \<^verbatim>\<open>cpu\<close> detail of a record of the ranked list
  that belongs to another process.
\<close>

theorem dead_excluded:
  assumes gt: "get_tracking load m = Inr (m', ret, summary)"
    and d: "dead m k = Some v" "truthy v"
  shows "(\<forall>r \<in> set ret. r_process_id r \<noteq> k) \<and>
         (\<forall>d \<in> set summary. \<exists>r \<in> set ret. cpu r = Some d \<and> r_process_id r \<noteq> k)"
proof -
  from d have nl: "\<not> live m k" by (simp add: live_def dict_get_def)
  have 1: "r_process_id r \<noteq> k" if "r \<in> set ret" for r
  proof -
    from ret_mem[OF gt that] obtain k' where q: "qualifies load m k'"
      and r: "r = rec_of load m k' (tracking m) \<or> r = attach_name (rec_of load m k' (tracking m))"
      by blast
    from qualifies_fields(1)[OF q r] have "r_process_id r = k'" .
    moreover from q nl have "k' \<noteq> k" by (auto simp: qualifies_def)
    ultimately show ?thesis by simp
  qed
  have 2: "\<exists>r \<in> set ret. cpu r = Some d \<and> r_process_id r \<noteq> k" if "d \<in> set summary" for d
  proof -
    from that get_tracking_Inr(2)[OF gt] obtain a where
      a: "a \<in> set (take 5 (ranked load m))" and
      d: "d = the (cpu (attach_name (heap (final_state load m) ! a)))" by auto
    from a have a': "a \<in> set (ranked load m)" by (rule in_set_takeD)
    let ?r = "attach_name (heap (final_state load m) ! a)"
    have "?r \<in> set ret" unfolding get_tracking_Inr(1)[OF gt] using a a' by force
    moreover from ranked_addr[OF a'] have "cpu ?r = Some d"
      by (auto simp: d attach_name_fields)
    ultimately show ?thesis using 1 by blast
  qed
  from 1 2 show ?thesis by blast
qed

text \<open>
  A busy process marked dead next to a busy live one: only the live one is ranked.
\<close>

theorem dead_excluded_witness:
  "get_tracking (\<lambda>t. t) ex_dead =
     Inr (ex_dead\<lparr>zero_cpu_processes := []\<rparr>,
          [\<lparr>r_process_id = ''process.p2'', r_dead = VInt 0, r_pid = VInt 0, r_name = VStr [],
            is_zero_cpu = False, cpu = Some \<lparr>smoothed = [3], dname = Some (VStr [])\<rparr>,
            rss = Some \<lparr>smoothed = [7], dname = None\<rparr>\<rparr>],
          [\<lparr>smoothed = [3], dname = Some (VStr [])\<rparr>]) \<and>
   dead ex_dead ''process.p1'' = Some (VFloat 1) \<and> truthy (VFloat 1)"
proof -
  have gt: "get_tracking (\<lambda>t. t) ex_dead =
     Inr (ex_dead\<lparr>zero_cpu_processes := []\<rparr>,
          [\<lparr>r_process_id = ''process.p2'', r_dead = VInt 0, r_pid = VInt 0, r_name = VStr [],
            is_zero_cpu = False, cpu = Some \<lparr>smoothed = [3], dname = Some (VStr [])\<rparr>,
            rss = Some \<lparr>smoothed = [7], dname = None\<rparr>\<rparr>],
          [\<lparr>smoothed = [3], dname = Some (VStr [])\<rparr>])"
    by (simp add: ex_dead_def eval_defs)
  have d: "dead ex_dead ''process.p1'' = Some (VFloat 1)"
    by (simp add: ex_dead_def defaults_def)
  have t: "truthy (VFloat 1)" by simp
  note dead_excluded [OF gt d t]
  with gt d t show ?thesis by simp
qed

text \<open>
  Claim C4 (ranking and top five). Every record of the ranked list returned by
  \<^verbatim>\<open>get_tracking\<close> has a \<^verbatim>\<open>cpu\<close> detail whose smoothed sequence is not empty and is the
  smoothed sequence of a \<^verbatim>\<open>cpu\<close> series of its process in the series store, and the list
  is in descending order of the last value of that sequence (which is the sort key
  \<^verbatim>\<open>s['cpu']['smoothed'][-1]\<close> of the source). The ranked list holds every qualifying
  process exactly once: the processes that are not marked dead, have a \<^verbatim>\<open>cpu\<close> and an
  \<^verbatim>\<open>rss\<close> series and no \<^verbatim>\<open>cpu\<close> series with mean below \<^verbatim>\<open>ALMOST_ZERO\<close>; each record
  carries the recorded name of its process. The summary has \<open>min 5 (length ret)\<close> entries:
  they are the \<^verbatim>\<open>cpu\<close> details of the first records of the ranked list, in order, each
  with the name of its process attached. With five or more records the summary has
  exactly five entries.
\<close>

theorem ranked_sorted_top5:
  assumes gt: "get_tracking load m = Inr (m', ret, summary)"
  shows "(\<forall>r \<in> set ret. \<exists>d. cpu r = Some d \<and> smoothed d \<noteq> [] \<and>
            (\<exists>x \<in> set (tracking m). key_process_id (fst x) = r_process_id r \<and>
                 key_suffix (fst x) = ''cpu'' \<and> smoothed d = smoothed (sdetail (load (snd x))))) \<and>
         sorted_wrt (\<lambda>a b. b \<le> a) (map (\<lambda>r. last (smoothed (the (cpu r)))) ret) \<and>
         (\<exists>ks. sort_keys ret = Inr ks \<and> sorted_wrt (\<lambda>a b. b \<le> a) ks) \<and>
         distinct (map r_process_id ret) \<and>
         set (map r_process_id ret) =
           {k. \<not> truthy (dict_get (dead m) k (VInt 0)) \<and>
               (\<exists>x \<in> set (tracking m). key_process_id (fst x) = k \<and> key_suffix (fst x) = ''cpu'') \<and>
               (\<exists>x \<in> set (tracking m). key_process_id (fst x) = k \<and> key_suffix (fst x) = ''rss'') \<and>
               \<not> (\<exists>x \<in> set (tracking m). key_process_id (fst x) = k \<and> key_suffix (fst x) = ''cpu'' \<and>
                      mean (load (snd x)) < ALMOST_ZERO)} \<and>
         (\<forall>r \<in> set ret. r_name r = dict_get (names m) (r_process_id r) (VStr [])) \<and>
         length summary = min 5 (length ret) \<and>
         map cpu (take 5 ret) = map Some summary \<and>
         (\<forall>r \<in> set (take 5 ret). \<exists>d. cpu r = Some d \<and> dname d = Some (r_name r)) \<and>
         (5 \<le> length ret \<longrightarrow> length summary = 5)"
proof -
  from top5_keys[OF gt] obtain ks where
    sk: "sort_keys ret = Inr ks" and srt: "sorted_wrt (\<lambda>a b. b \<le> a) ks" and
    len: "length summary = min 5 (length ret)" and
    top: "map cpu (take 5 ret) = map Some summary" and
    nm: "\<forall>r \<in> set (take 5 ret). \<exists>d. cpu r = Some d \<and> dname d = Some (r_name r)" and
    five: "5 \<le> length ret \<longrightarrow> length summary = 5"
    by blast
  from sort_keys_Inr[OF sk] have ks: "ks = map the_key ret"
    and keys: "\<forall>v \<in> set ret. last_smoothed_cpu v = Inr (the_key v)" by simp_all
  have last_key: "\<exists>d. cpu r = Some d \<and> smoothed d \<noteq> [] \<and> the_key r = last (smoothed d)"
    if "r \<in> set ret" for r
    using keys that by (auto dest: last_smoothed_cpu_InrD)
  have 1: "\<forall>r \<in> set ret. \<exists>d. cpu r = Some d \<and> smoothed d \<noteq> [] \<and>
            (\<exists>x \<in> set (tracking m). key_process_id (fst x) = r_process_id r \<and>
                 key_suffix (fst x) = ''cpu'' \<and> smoothed d = smoothed (sdetail (load (snd x))))"
  proof
    fix r assume r: "r \<in> set ret"
    from last_key[OF r] obtain d where d: "cpu r = Some d" "smoothed d \<noteq> []" by blast
    from ret_details(2)[OF gt r] d(1) have
      "\<exists>x \<in> set (tracking m). key_process_id (fst x) = r_process_id r \<and>
                 key_suffix (fst x) = ''cpu'' \<and> smoothed d = smoothed (sdetail (load (snd x)))"
      by simp
    with d show "\<exists>d. cpu r = Some d \<and> smoothed d \<noteq> [] \<and>
            (\<exists>x \<in> set (tracking m). key_process_id (fst x) = r_process_id r \<and>
                 key_suffix (fst x) = ''cpu'' \<and> smoothed d = smoothed (sdetail (load (snd x))))"
      by (intro exI conjI)
  qed
  have "map the_key ret = map (\<lambda>r. last (smoothed (the (cpu r)))) ret"
  proof (rule map_cong[OF refl])
    fix r assume "r \<in> set ret"
    from last_key[OF this] show "the_key r = last (smoothed (the (cpu r)))" by auto
  qed
  with srt ks have 2: "sorted_wrt (\<lambda>a b. b \<le> a) (map (\<lambda>r. last (smoothed (the (cpu r)))) ret)"
    by simp
  from sk srt have 3: "\<exists>ks. sort_keys ret = Inr ks \<and> sorted_wrt (\<lambda>a b. b \<le> a) ks" by blast
  have 4: "distinct (map r_process_id ret)" by (rule ret_ids_distinct[OF gt])
  have 5: "set (map r_process_id ret) =
           {k. \<not> truthy (dict_get (dead m) k (VInt 0)) \<and>
               (\<exists>x \<in> set (tracking m). key_process_id (fst x) = k \<and> key_suffix (fst x) = ''cpu'') \<and>
               (\<exists>x \<in> set (tracking m). key_process_id (fst x) = k \<and> key_suffix (fst x) = ''rss'') \<and>
               \<not> (\<exists>x \<in> set (tracking m). key_process_id (fst x) = k \<and> key_suffix (fst x) = ''cpu'' \<and>
                      mean (load (snd x)) < ALMOST_ZERO)}"
    unfolding ret_ids[OF gt] by (rule Collect_cong) (rule qualifies_store)
  have 6: "\<forall>r \<in> set ret. r_name r = dict_get (names m) (r_process_id r) (VStr [])"
    using ret_details(1)[OF gt] by blast
  show ?thesis
    by (rule conjI[OF 1 conjI[OF 2 conjI[OF 3 conjI[OF 4 conjI[OF 5 conjI[OF 6
          conjI[OF len conjI[OF top conjI[OF nm five]]]]]]]]])
qed

text \<open>
  Six busy processes whose order by the last smoothed value (6, 5, 4, 3, 2, 1) is the
  reverse of their order by the first: all six are ranked, by the last value, and the
  summary holds the named \<^verbatim>\<open>cpu\<close> details of the first five.
\<close>

theorem ranked_sorted_top5_witness:
  "get_tracking (\<lambda>t. t) ex_six =
     Inr (ex_six\<lparr>zero_cpu_processes := []\<rparr>,
          [\<lparr>r_process_id = ''process.p4'', r_dead = VInt 0, r_pid = VInt 0, r_name = VStr ''py'',
            is_zero_cpu = False, cpu = Some \<lparr>smoothed = [1, 6], dname = Some (VStr ''py'')\<rparr>,
            rss = Some \<lparr>smoothed = [8], dname = None\<rparr>\<rparr>,
           \<lparr>r_process_id = ''process.p5'', r_dead = VInt 0, r_pid = VInt 0, r_name = VStr [],
            is_zero_cpu = False, cpu = Some \<lparr>smoothed = [2, 5], dname = Some (VStr [])\<rparr>,
            rss = Some \<lparr>smoothed = [8], dname = None\<rparr>\<rparr>,
           \<lparr>r_process_id = ''process.p6'', r_dead = VInt 0, r_pid = VInt 0, r_name = VStr [],
            is_zero_cpu = False, cpu = Some \<lparr>smoothed = [3, 4], dname = Some (VStr [])\<rparr>,
            rss = Some \<lparr>smoothed = [8], dname = None\<rparr>\<rparr>,
           \<lparr>r_process_id = ''process.p3'', r_dead = VInt 0, r_pid = VInt 0, r_name = VStr [],
            is_zero_cpu = False, cpu = Some \<lparr>smoothed = [7, 3], dname = Some (VStr [])\<rparr>,
            rss = Some \<lparr>smoothed = [8], dname = None\<rparr>\<rparr>,
           \<lparr>r_process_id = ''process.p2'', r_dead = VInt 0, r_pid = VInt 0, r_name = VStr [],
            is_zero_cpu = False, cpu = Some \<lparr>smoothed = [8, 2], dname = Some (VStr [])\<rparr>,
            rss = Some \<lparr>smoothed = [8], dname = None\<rparr>\<rparr>,
           \<lparr>r_process_id = ''process.p1'', r_dead = VInt 0, r_pid = VInt 0, r_name = VStr [],
            is_zero_cpu = False, cpu = Some \<lparr>smoothed = [9, 1], dname = None\<rparr>,
            rss = Some \<lparr>smoothed = [8], dname = None\<rparr>\<rparr>],
          [\<lparr>smoothed = [1, 6], dname = Some (VStr ''py'')\<rparr>,
           \<lparr>smoothed = [2, 5], dname = Some (VStr [])\<rparr>,
           \<lparr>smoothed = [3, 4], dname = Some (VStr [])\<rparr>,
           \<lparr>smoothed = [7, 3], dname = Some (VStr [])\<rparr>,
           \<lparr>smoothed = [8, 2], dname = Some (VStr [])\<rparr>])"
proof -
  have gt: "get_tracking (\<lambda>t. t) ex_six =
     Inr (ex_six\<lparr>zero_cpu_processes := []\<rparr>,
          [\<lparr>r_process_id = ''process.p4'', r_dead = VInt 0, r_pid = VInt 0, r_name = VStr ''py'',
            is_zero_cpu = False, cpu = Some \<lparr>smoothed = [1, 6], dname = Some (VStr ''py'')\<rparr>,
            rss = Some \<lparr>smoothed = [8], dname = None\<rparr>\<rparr>,
           \<lparr>r_process_id = ''process.p5'', r_dead = VInt 0, r_pid = VInt 0, r_name = VStr [],
            is_zero_cpu = False, cpu = Some \<lparr>smoothed = [2, 5], dname = Some (VStr [])\<rparr>,
            rss = Some \<lparr>smoothed = [8], dname = None\<rparr>\<rparr>,
           \<lparr>r_process_id = ''process.p6'', r_dead = VInt 0, r_pid = VInt 0, r_name = VStr [],
            is_zero_cpu = False, cpu = Some \<lparr>smoothed = [3, 4], dname = Some (VStr [])\<rparr>,
            rss = Some \<lparr>smoothed = [8], dname = None\<rparr>\<rparr>,
           \<lparr>r_process_id = ''process.p3'', r_dead = VInt 0, r_pid = VInt 0, r_name = VStr [],
            is_zero_cpu = False, cpu = Some \<lparr>smoothed = [7, 3], dname = Some (VStr [])\<rparr>,
            rss = Some \<lparr>smoothed = [8], dname = None\<rparr>\<rparr>,
           \<lparr>r_process_id = ''process.p2'', r_dead = VInt 0, r_pid = VInt 0, r_name = VStr [],
            is_zero_cpu = False, cpu = Some \<lparr>smoothed = [8, 2], dname = Some (VStr [])\<rparr>,
            rss = Some \<lparr>smoothed = [8], dname = None\<rparr>\<rparr>,
           \<lparr>r_process_id = ''process.p1'', r_dead = VInt 0, r_pid = VInt 0, r_name = VStr [],
            is_zero_cpu = False, cpu = Some \<lparr>smoothed = [9, 1], dname = None\<rparr>,
            rss = Some \<lparr>smoothed = [8], dname = None\<rparr>\<rparr>],
          [\<lparr>smoothed = [1, 6], dname = Some (VStr ''py'')\<rparr>,
           \<lparr>smoothed = [2, 5], dname = Some (VStr [])\<rparr>,
           \<lparr>smoothed = [3, 4], dname = Some (VStr [])\<rparr>,
           \<lparr>smoothed = [7, 3], dname = Some (VStr [])\<rparr>,
           \<lparr>smoothed = [8, 2], dname = Some (VStr [])\<rparr>])"
    by (simp add: ex_six_def eval_defs)
  note ranked_sorted_top5 [OF gt]
  with gt show ?thesis by simp
qed

text \<open>
  Claim C5 (completeness filter). Every record of the ranked list of \<^verbatim>\<open>get_tracking\<close> has
  both a \<^verbatim>\<open>cpu\<close> and an \<^verbatim>\<open>rss\<close> detail, and so has every record that
  \<^verbatim>\<open>get_zero_cpu_processes\<close> returns from any model. In particular a process without a
  \<^verbatim>\<open>cpu\<close> series, or without an \<^verbatim>\<open>rss\<close> series, in the series store has no record in the
  ranked list nor in the list that \<^verbatim>\<open>get_zero_cpu_processes\<close> returns afterwards.
\<close>

theorem incomplete_excluded:
  assumes gt: "get_tracking load m = Inr (m', ret, summary)"
  shows "(\<forall>r \<in> set ret. cpu r \<noteq> None \<and> rss r \<noteq> None) \<and>
         (\<forall>zs. get_zero_cpu_processes mz = Inr zs \<longrightarrow> (\<forall>r \<in> set zs. cpu r \<noteq> None \<and> rss r \<noteq> None)) \<and>
         (\<forall>k s. s \<in> {''cpu'', ''rss''} \<longrightarrow>
            \<not> (\<exists>x \<in> set (tracking m). key_process_id (fst x) = k \<and> key_suffix (fst x) = s) \<longrightarrow>
            (\<forall>r \<in> set ret. r_process_id r \<noteq> k) \<and>
            (\<forall>zs. get_zero_cpu_processes m' = Inr zs \<longrightarrow> (\<forall>r \<in> set zs. r_process_id r \<noteq> k)))"
proof -
  have q: "qualifies load m (r_process_id r) \<and> cpu r \<noteq> None \<and> rss r \<noteq> None" if "r \<in> set ret" for r
  proof -
    from ret_mem[OF gt that] obtain k where q: "qualifies load m k"
      and r: "r = rec_of load m k (tracking m) \<or> r = attach_name (rec_of load m k (tracking m))"
      by blast
    from qualifies_fields[OF q r] q show ?thesis by simp
  qed
  have 1: "\<forall>r \<in> set ret. cpu r \<noteq> None \<and> rss r \<noteq> None" using q by blast
  have 2: "\<forall>zs. get_zero_cpu_processes mz = Inr zs \<longrightarrow> (\<forall>r \<in> set zs. cpu r \<noteq> None \<and> rss r \<noteq> None)"
    by (simp add: get_zero_set)
  have 3: "(\<forall>r \<in> set ret. r_process_id r \<noteq> k) \<and>
            (\<forall>zs. get_zero_cpu_processes m' = Inr zs \<longrightarrow> (\<forall>r \<in> set zs. r_process_id r \<noteq> k))"
    if s: "s \<in> {''cpu'', ''rss''}"
      and no: "\<not> (\<exists>x \<in> set (tracking m). key_process_id (fst x) = k \<and> key_suffix (fst x) = s)"
    for k s
  proof -
    from s have "s = ''cpu'' \<or> s = ''rss''" by simp
    then have miss: "cpu (rec_of load m k (tracking m)) = None \<or> rss (rec_of load m k (tracking m)) = None"
    proof
      assume "s = ''cpu''"
      with no rec_of_cpu[of load m k "tracking m"] show ?thesis by blast
    next
      assume "s = ''rss''"
      with no rec_of_rss[of load m k "tracking m"] show ?thesis by blast
    qed
    have a: "r_process_id r \<noteq> k" if "r \<in> set ret" for r
    proof
      assume "r_process_id r = k"
      with q[OF that] have "qualifies load m k" by simp
      with miss show False by (auto simp: qualifies_def)
    qed
    have b: "r_process_id r \<noteq> k" if z: "get_zero_cpu_processes m' = Inr zs" and r: "r \<in> set zs" for zs r
    proof
      assume k: "r_process_id r = k"
      from r have "r \<in> snd ` set (zero_cpu_processes m')" and c: "cpu r \<noteq> None" "rss r \<noteq> None"
        by (simp_all add: get_zero_set[OF z])
      then obtain k' where "(k', r) \<in> set (zero_cpu_processes m')" by force
      then have r': "r = rec_of load m k' (tracking m)" by (simp add: cache_mem[OF gt])
      then have "r_process_id r = k'" by (simp add: rec_of_fields)
      with k r' have "r = rec_of load m k (tracking m)" by simp
      with c miss show False by auto
    qed
    from a b show ?thesis by blast
  qed
  have t3: "\<forall>k s. s \<in> {''cpu'', ''rss''} \<longrightarrow>
            \<not> (\<exists>x \<in> set (tracking m). key_process_id (fst x) = k \<and> key_suffix (fst x) = s) \<longrightarrow>
            (\<forall>r \<in> set ret. r_process_id r \<noteq> k) \<and>
            (\<forall>zs. get_zero_cpu_processes m' = Inr zs \<longrightarrow> (\<forall>r \<in> set zs. r_process_id r \<noteq> k))"
  proof (intro allI impI)
    fix k s
    assume "s \<in> {''cpu'', ''rss''}"
      and "\<not> (\<exists>x \<in> set (tracking m). key_process_id (fst x) = k \<and> key_suffix (fst x) = s)"
    then show "(\<forall>r \<in> set ret. r_process_id r \<noteq> k) \<and>
            (\<forall>zs. get_zero_cpu_processes m' = Inr zs \<longrightarrow> (\<forall>r \<in> set zs. r_process_id r \<noteq> k))"
      by (rule 3)
  qed
  show ?thesis
    by (rule conjI[OF 1 conjI[OF 2 t3]])
qed

text \<open>
  A process with an \<^verbatim>\<open>rss\<close> series only is in neither list.
\<close>

theorem incomplete_excluded_witness:
  "get_tracking (\<lambda>t. t) ex_partial =
     Inr (ex_partial\<lparr>zero_cpu_processes := []\<rparr>,
          [\<lparr>r_process_id = ''process.p2'', r_dead = VInt 0, r_pid = VInt 0, r_name = VStr [],
            is_zero_cpu = False, cpu = Some \<lparr>smoothed = [3], dname = Some (VStr [])\<rparr>,
            rss = Some \<lparr>smoothed = [7], dname = None\<rparr>\<rparr>],
          [\<lparr>smoothed = [3], dname = Some (VStr [])\<rparr>]) \<and>
   get_zero_cpu_processes (ex_partial\<lparr>zero_cpu_processes := []\<rparr>) = Inr []"
proof -
  have gt: "get_tracking (\<lambda>t. t) ex_partial =
     Inr (ex_partial\<lparr>zero_cpu_processes := []\<rparr>,
          [\<lparr>r_process_id = ''process.p2'', r_dead = VInt 0, r_pid = VInt 0, r_name = VStr [],
            is_zero_cpu = False, cpu = Some \<lparr>smoothed = [3], dname = Some (VStr [])\<rparr>,
            rss = Some \<lparr>smoothed = [7], dname = None\<rparr>\<rparr>],
          [\<lparr>smoothed = [3], dname = Some (VStr [])\<rparr>])"
    by (simp add: ex_partial_def eval_defs)
  have z: "get_zero_cpu_processes (ex_partial\<lparr>zero_cpu_processes := []\<rparr>) = Inr []"
    by (simp add: get_zero_cpu_processes_def sort_desc_def)
  note incomplete_excluded [OF gt, of "ex_partial\<lparr>zero_cpu_processes := []\<rparr>"]
  with gt z show ?thesis by simp
qed

text \<open>
  Claim C6 (the cache is replaced). After \<^verbatim>\<open>get_tracking\<close> a process id is a key of
  \<^verbatim>\<open>zero_cpu_processes\<close> if and only if the process is not marked dead and has a \<^verbatim>\<open>cpu\<close>
  series with mean below \<^verbatim>\<open>ALMOST_ZERO\<close> in the series store. The result does not depend on
  the cache held before the call, so an old entry stays only when it is computed again.
  The \<^verbatim>\<open>cpu\<close> detail of every entry is the detail of a \<^verbatim>\<open>cpu\<close> series that the process
  has in the series store now, and no key occurs twice.
\<close>

theorem cache_rebuilt:
  assumes gt: "get_tracking load m = Inr (m', ret, summary)"
  shows "(\<forall>k. k \<in> fst ` set (zero_cpu_processes m') \<longleftrightarrow>
            \<not> truthy (dict_get (dead m) k (VInt 0)) \<and>
            (\<exists>x \<in> set (tracking m). key_process_id (fst x) = k \<and> key_suffix (fst x) = ''cpu'' \<and>
                mean (load (snd x)) < ALMOST_ZERO)) \<and>
         (\<forall>z. get_tracking load (m\<lparr>zero_cpu_processes := z\<rparr>) = Inr (m', ret, summary)) \<and>
         (\<forall>(k, r) \<in> set (zero_cpu_processes m').
            \<exists>x \<in> set (tracking m). key_process_id (fst x) = k \<and> key_suffix (fst x) = ''cpu'' \<and>
                cpu r = Some (sdetail (load (snd x)))) \<and>
         distinct (map fst (zero_cpu_processes m'))"
proof -
  have 1: "k \<in> fst ` set (zero_cpu_processes m') \<longleftrightarrow>
            \<not> truthy (dict_get (dead m) k (VInt 0)) \<and>
            (\<exists>x \<in> set (tracking m). key_process_id (fst x) = k \<and> key_suffix (fst x) = ''cpu'' \<and>
                mean (load (snd x)) < ALMOST_ZERO)" for k
  proof -
    have "k \<in> fst ` set (zero_cpu_processes m') \<longleftrightarrow> (\<exists>r. (k, r) \<in> set (zero_cpu_processes m'))"
      by force
    also have "\<dots> \<longleftrightarrow> live m k \<and>
         (\<exists>e \<in> set (tracking m). key_process_id (fst e) = k \<and> zero_cpu_entry load e)"
      by (simp add: cache_mem[OF gt])
    finally show ?thesis by (simp add: live_def zero_cpu_entry_def)
  qed
  have 2: "\<forall>z. get_tracking load (m\<lparr>zero_cpu_processes := z\<rparr>) = Inr (m', ret, summary)"
    by (simp add: get_tracking_ignores_cache gt)
  have 3: "\<forall>(k, r) \<in> set (zero_cpu_processes m').
            \<exists>x \<in> set (tracking m). key_process_id (fst x) = k \<and> key_suffix (fst x) = ''cpu'' \<and>
                cpu r = Some (sdetail (load (snd x)))"
  proof (clarify)
    fix k r assume kr: "(k, r) \<in> set (zero_cpu_processes m')"
    then have r: "r = rec_of load m k (tracking m)"
      and z: "\<exists>e \<in> set (tracking m). key_process_id (fst e) = k \<and> zero_cpu_entry load e"
      by (simp_all add: cache_mem[OF gt])
    from z have "is_zero_cpu (rec_of load m k (tracking m))" by (simp add: rec_of_is_zero_cpu)
    from rec_of_zero_has_cpu[OF this] obtain d where d: "cpu (rec_of load m k (tracking m)) = Some d"
      by auto
    from rec_of_cpu_detail[OF d] d r
    show "\<exists>x \<in> set (tracking m). key_process_id (fst x) = k \<and> key_suffix (fst x) = ''cpu'' \<and>
                cpu r = Some (sdetail (load (snd x)))" by auto
  qed
  from 1 2 3 cache_distinct[OF gt] show ?thesis by blast
qed

text \<open>
  The cache held \<^verbatim>\<open>process.p2\<close>, which is busy now: after the call it holds \<^verbatim>\<open>process.p1\<close>
  only.
\<close>

theorem cache_rebuilt_witness:
  "get_tracking (\<lambda>t. t) ex_stale =
     Inr (ex_stale\<lparr>zero_cpu_processes :=
            [(''process.p1'',
              \<lparr>r_process_id = ''process.p1'', r_dead = VInt 0, r_pid = VInt 0, r_name = VStr [],
               is_zero_cpu = True, cpu = Some \<lparr>smoothed = [0], dname = None\<rparr>, rss = None\<rparr>)]\<rparr>,
          [], []) \<and>
   map fst (zero_cpu_processes ex_stale) = [''process.p2'']"
proof -
  have gt: "get_tracking (\<lambda>t. t) ex_stale =
     Inr (ex_stale\<lparr>zero_cpu_processes :=
            [(''process.p1'',
              \<lparr>r_process_id = ''process.p1'', r_dead = VInt 0, r_pid = VInt 0, r_name = VStr [],
               is_zero_cpu = True, cpu = Some \<lparr>smoothed = [0], dname = None\<rparr>, rss = None\<rparr>)]\<rparr>,
          [], [])"
    by (simp add: ex_stale_def eval_defs)
  have old: "map fst (zero_cpu_processes ex_stale) = [''process.p2'']"
    by (simp add: ex_stale_def defaults_def)
  note cache_rebuilt [OF gt]
  with gt old show ?thesis by simp
qed

text \<open>
  Claim C9 (indexing the smoothed sequence). When the smoothed sequence of every \<^verbatim>\<open>cpu\<close>
  series of the series store is not empty, \<^verbatim>\<open>get_tracking\<close> returns and so does a
  following \<^verbatim>\<open>get_zero_cpu_processes\<close>; \<^verbatim>\<open>get_zero_cpu_processes\<close> returns from any model
  whose cached \<^verbatim>\<open>cpu\<close> details have non-empty smoothed sequences. With an empty smoothed
  sequence both queries can fail: \<^verbatim>\<open>get_tracking\<close> raises \<^verbatim>\<open>IndexError\<close> for a store with
  one busy process whose \<^verbatim>\<open>cpu\<close> series has an empty smoothed sequence, and
  \<^verbatim>\<open>get_zero_cpu_processes\<close> raises it for a cache with such a record.
\<close>

theorem smoothed_indexing:
  "((\<forall>x \<in> set (tracking m). key_suffix (fst x) = ''cpu'' \<longrightarrow> smoothed (sdetail (load (snd x))) \<noteq> []) \<longrightarrow>
      (\<exists>m' ret summary. get_tracking load m = Inr (m', ret, summary) \<and>
          (\<exists>zs. get_zero_cpu_processes m' = Inr zs))) \<and>
   ((\<forall>r \<in> snd ` set (zero_cpu_processes mz). \<forall>d. cpu r = Some d \<longrightarrow> smoothed d \<noteq> []) \<longrightarrow>
      (\<exists>zs. get_zero_cpu_processes mz = Inr zs)) \<and>
   get_tracking (\<lambda>t. t)
     (defaults\<lparr>tracking :=
        [(''process.p1.cpu'', \<lparr>mean = 1, sdetail = \<lparr>smoothed = [], dname = None\<rparr>\<rparr>),
         (''process.p1.rss'', \<lparr>mean = 1, sdetail = \<lparr>smoothed = [1], dname = None\<rparr>\<rparr>)]\<rparr>)
     = Inl IndexError \<and>
   get_zero_cpu_processes
     (defaults\<lparr>zero_cpu_processes :=
        [(''process.p1'',
          \<lparr>r_process_id = ''process.p1'', r_dead = VInt 0, r_pid = VInt 0, r_name = VStr [],
           is_zero_cpu = True,
           cpu = Some \<lparr>smoothed = [], dname = None\<rparr>,
           rss = Some \<lparr>smoothed = [1], dname = None\<rparr>\<rparr>)]\<rparr> :: unit process_model)
     = Inl IndexError"
proof -
  have 1: "(\<forall>x \<in> set (tracking m). key_suffix (fst x) = ''cpu'' \<longrightarrow> smoothed (sdetail (load (snd x))) \<noteq> []) \<longrightarrow>
      (\<exists>m' ret summary. get_tracking load m = Inr (m', ret, summary) \<and>
          (\<exists>zs. get_zero_cpu_processes m' = Inr zs))"
    using get_tracking_total[of m load] zero_after_total[of load m] by blast
  have 2: "(\<forall>r \<in> snd ` set (zero_cpu_processes mz). \<forall>d. cpu r = Some d \<longrightarrow> smoothed d \<noteq> []) \<longrightarrow>
      (\<exists>zs. get_zero_cpu_processes mz = Inr zs)"
  proof
    assume ne: "\<forall>r \<in> snd ` set (zero_cpu_processes mz). \<forall>d. cpu r = Some d \<longrightarrow> smoothed d \<noteq> []"
    show "\<exists>zs. get_zero_cpu_processes mz = Inr zs"
    proof (cases "get_zero_cpu_processes mz")
      case (Inl e)
      from get_zero_Inl[OF Inl] ne show ?thesis by blast
    next
      case (Inr zs)
      then show ?thesis by blast
    qed
  qed
  have 3: "get_tracking (\<lambda>t. t)
     (defaults\<lparr>tracking :=
        [(''process.p1.cpu'', \<lparr>mean = 1, sdetail = \<lparr>smoothed = [], dname = None\<rparr>\<rparr>),
         (''process.p1.rss'', \<lparr>mean = 1, sdetail = \<lparr>smoothed = [1], dname = None\<rparr>\<rparr>)]\<rparr>)
     = Inl IndexError"
    by (simp add: get_tracking_def final_state_def defaults_def tracking_step_def materialize_def
          new_record_def dict_get_def dict_set_def set_metric_def ALMOST_ZERO_def
          last_smoothed_cpu_def Let_def)
  have 4: "get_zero_cpu_processes
     (defaults\<lparr>zero_cpu_processes :=
        [(''process.p1'',
          \<lparr>r_process_id = ''process.p1'', r_dead = VInt 0, r_pid = VInt 0, r_name = VStr [],
           is_zero_cpu = True,
           cpu = Some \<lparr>smoothed = [], dname = None\<rparr>,
           rss = Some \<lparr>smoothed = [1], dname = None\<rparr>\<rparr>)]\<rparr> :: unit process_model)
     = Inl IndexError"
    by (simp add: get_zero_cpu_processes_def defaults_def last_smoothed_cpu_def)
  from 1 2 3 4 show ?thesis by (intro conjI)
qed

text \<open>
  A store whose \<^verbatim>\<open>cpu\<close> series have non-empty smoothed sequences: both queries return.
\<close>

theorem smoothed_indexing_witness:
  "smoothed (sdetail \<lparr>mean = 2, sdetail = \<lparr>smoothed = [1, 2], dname = None\<rparr>\<rparr>) \<noteq> [] \<and>
   smoothed (sdetail \<lparr>mean = 4, sdetail = \<lparr>smoothed = [3, 5], dname = None\<rparr>\<rparr>) \<noteq> [] \<and>
   map r_process_id (fst (snd (projr (get_tracking (\<lambda>t. t) ex_busy)))) = [''process.p2'', ''process.p1''] \<and>
   get_zero_cpu_processes (fst (projr (get_tracking (\<lambda>t. t) ex_busy))) = Inr []"
proof -
  note smoothed_indexing [of ex_busy "\<lambda>t. t" "defaults :: unit process_model"]
  then show ?thesis
    by (simp add: ex_busy_def eval_defs)
qed

text \<open>
  Claim C10 (the cached dict is the dict of the live pass). After \<^verbatim>\<open>get_tracking\<close> every
  entry of \<^verbatim>\<open>zero_cpu_processes\<close> has \<^verbatim>\<open>is_zero_cpu\<close> set and has a \<^verbatim>\<open>cpu\<close> detail; it
  has an \<^verbatim>\<open>rss\<close> detail if and only if the series store holds an \<^verbatim>\<open>rss\<close> series of the
  process, also when that series comes after the \<^verbatim>\<open>cpu\<close> series. The entry is the dict at
  the address that both \<^verbatim>\<open>zero_cpu_processes\<close> and \<^verbatim>\<open>res\<close> hold for the process.
\<close>

theorem cache_entry_is_live_record:
  assumes gt: "get_tracking load m = Inr (m', ret, summary)"
    and kr: "(k, r) \<in> set (zero_cpu_processes m')"
  shows "is_zero_cpu r \<and> cpu r \<noteq> None \<and>
         (rss r \<noteq> None \<longleftrightarrow>
            (\<exists>x \<in> set (tracking m). key_process_id (fst x) = k \<and> key_suffix (fst x) = ''rss'')) \<and>
         (\<exists>a. map_of (zero (final_state load m)) k = Some a \<and>
              map_of (res (final_state load m)) k = Some a \<and>
              r = heap (final_state load m) ! a)"
proof -
  from kr have r: "r = rec_of load m k (tracking m)"
    and lv: "live m k"
    and z: "\<exists>e \<in> set (tracking m). key_process_id (fst e) = k \<and> zero_cpu_entry load e"
    by (simp_all add: cache_mem[OF gt])
  from z have zr: "is_zero_cpu (rec_of load m k (tracking m))" by (simp add: rec_of_is_zero_cpu)
  from z lv have "\<exists>a. map_of (res (final_state load m)) k = Some a"
    unfolding final_dom by blast
  then obtain a where a: "map_of (res (final_state load m)) k = Some a" ..
  with zr have "map_of (zero (final_state load m)) k = Some a"
    using final_core[of load m] by (simp add: inv_core_def)
  with a r final_heap[OF a] have 4: "\<exists>a. map_of (zero (final_state load m)) k = Some a \<and>
              map_of (res (final_state load m)) k = Some a \<and>
              r = heap (final_state load m) ! a" by auto
  from zr rec_of_zero_has_cpu[OF zr] rec_of_rss[of load m k "tracking m"] 4 show ?thesis
    by (simp add: r)
qed

text \<open>
  The \<^verbatim>\<open>rss\<close> series of \<^verbatim>\<open>process.p1\<close> is read after the dict was stashed; the cached
  dict has the \<^verbatim>\<open>rss\<close> detail, and both dicts hold address 0 for the process.
\<close>

theorem cache_entry_is_live_record_witness:
  "get_tracking (\<lambda>t. t) ex_late_rss =
     Inr (ex_late_rss\<lparr>zero_cpu_processes :=
            [(''process.p1'',
              \<lparr>r_process_id = ''process.p1'', r_dead = VInt 0, r_pid = VInt 0, r_name = VStr [],
               is_zero_cpu = True, cpu = Some \<lparr>smoothed = [0], dname = None\<rparr>,
               rss = Some \<lparr>smoothed = [8], dname = None\<rparr>\<rparr>),
             (''process.p2'',
              \<lparr>r_process_id = ''process.p2'', r_dead = VInt 0, r_pid = VInt 0, r_name = VStr [],
               is_zero_cpu = True, cpu = Some \<lparr>smoothed = [0], dname = None\<rparr>, rss = None\<rparr>)]\<rparr>,
          [], []) \<and>
   map_of (zero (final_state (\<lambda>t. t) ex_late_rss)) ''process.p1'' = Some 0 \<and>
   map_of (res (final_state (\<lambda>t. t) ex_late_rss)) ''process.p1'' = Some 0"
proof -
  let ?r1 = "\<lparr>r_process_id = ''process.p1'', r_dead = VInt 0, r_pid = VInt 0, r_name = VStr [],
               is_zero_cpu = True, cpu = Some \<lparr>smoothed = [0], dname = None\<rparr>,
               rss = Some \<lparr>smoothed = [8], dname = None\<rparr>\<rparr>"
  let ?r2 = "\<lparr>r_process_id = ''process.p2'', r_dead = VInt 0, r_pid = VInt 0, r_name = VStr [],
               is_zero_cpu = True, cpu = Some \<lparr>smoothed = [0], dname = None\<rparr>, rss = None\<rparr>"
  have gt: "get_tracking (\<lambda>t. t) ex_late_rss =
     Inr (ex_late_rss\<lparr>zero_cpu_processes := [(''process.p1'', ?r1), (''process.p2'', ?r2)]\<rparr>, [], [])"
    by (simp add: ex_late_rss_def eval_defs)
  have kr: "(''process.p1'', ?r1) \<in>
     set (zero_cpu_processes (ex_late_rss\<lparr>zero_cpu_processes := [(''process.p1'', ?r1), (''process.p2'', ?r2)]\<rparr>))"
    by simp
  have a: "map_of (zero (final_state (\<lambda>t. t) ex_late_rss)) ''process.p1'' = Some 0"
    "map_of (res (final_state (\<lambda>t. t) ex_late_rss)) ''process.p1'' = Some 0"
    by (simp_all add: ex_late_rss_def eval_defs)
  note cache_entry_is_live_record [OF gt kr]
  with gt a show ?thesis by simp
qed

end
